theory Spec2Isabelle
  imports Main "HOL-Library.Word" "HOL-Library.Char_ord" "HOL-Library.List_Lexorder"
begin

section \<open>Formatted output: \<open>std::to_string\<close> and the \<open>std::cout\<close> manipulators\<close>

text \<open>
  The table printer of \<open>main.cpp\<close> writes to \<open>std::cout\<close> through \<open>operator<<\<close>,
  \<open>std::setw\<close>, \<open>std::setfill\<close> and \<open>std::endl\<close>. The stream is modelled by the three
  pieces of its state the printer touches: the characters written so far, the fill
  character (sticky) and the field width (reset to 0 by every formatted output).
  Values of type \<open>long long\<close> and the four \<open>int\<close> counts of a result are only copied,
  compared and printed; they are modelled as \<open>int\<close>, so every statement below covers all
  machine values. Lengths converted with \<open>static_cast<int>\<close> are lengths of short strings
  and are modelled as \<open>int\<close> as well.
\<close>

function decimal :: "nat \<Rightarrow> string" where
  "decimal n = (if n < 10 then [''0123456789'' ! n]
                else decimal (n div 10) @ [''0123456789'' ! (n mod 10)])"
  by pat_completeness auto
termination
  by (relation "measure (\<lambda>n. n)") auto

declare decimal.simps [simp del]

definition to_string :: "int \<Rightarrow> string" where
  "to_string v = (if v < 0 then ''-'' @ decimal (nat (- v)) else decimal (nat v))"

record ostream =
  out :: string
  fill :: char
  width :: int

definition cout :: ostream where
  "cout = \<lparr>out = [], fill = CHR '' '', width = 0\<rparr>"

definition setw :: "int \<Rightarrow> ostream \<Rightarrow> ostream" where
  "setw n os = os\<lparr>width := n\<rparr>"

definition setfill :: "char \<Rightarrow> ostream \<Rightarrow> ostream" where
  "setfill c os = os\<lparr>fill := c\<rparr>"

definition padded :: "char \<Rightarrow> int \<Rightarrow> string \<Rightarrow> string" where
  "padded c w s = replicate (nat (w - int (length s))) c @ s"

definition put :: "string \<Rightarrow> ostream \<Rightarrow> ostream" where
  \<comment> \<open>\<open>os << s\<close> for a string: right-adjusted in the field (the default), width reset\<close>
  "put s os = os\<lparr>out := out os @ padded (fill os) (width os) s, width := 0\<rparr>"

definition put_int :: "int \<Rightarrow> ostream \<Rightarrow> ostream" where
  \<comment> \<open>\<open>os << n\<close> for an \<open>int\<close>: decimal, right-adjusted in the field\<close>
  "put_int n os = put (to_string n) os"

definition endl :: "ostream \<Rightarrow> ostream" where
  \<comment> \<open>\<open>std::endl\<close>: an unformatted newline (the width is not consulted) and a flush\<close>
  "endl os = os\<lparr>out := out os @ [CHR 0x0A]\<rparr>"

definition emit :: "(ostream \<Rightarrow> ostream) list \<Rightarrow> ostream \<Rightarrow> ostream" where
  \<comment> \<open>a chain \<open>os << a << b << ...\<close>, applied left to right\<close>
  "emit ops os = fold (\<lambda>op s. op s) ops os"

section \<open>\<open>Benchmark::Result\<close> and \<open>Benchmark::printBenchmarkTable\<close>\<close>

text \<open>
  A \<open>std::map<std::string, long long>\<close> is an association list in iteration order;
  \<open>find\<close> is \<open>map_of\<close>. The statements about the printer hold for every association
  list, sorted or not.
\<close>

type_synonym times_map = "(string \<times> int) list"

record Result =
  times :: times_map
  numReaders :: int
  numWriters :: int
  numReads :: int
  numUpdates :: int

definition columns_of :: "Result list \<Rightarrow> string list" where
  \<comment> \<open>lines 328-333: the keys of the first result's map\<close>
  "columns_of results = (if results \<noteq> [] then map fst (times (results ! 0)) else [])"

definition readers_width :: int where
  "readers_width = max 2 (int (length ''Readers''))"

definition writers_width :: int where
  "writers_width = max 2 (int (length ''Writers''))"

definition reads_width :: int where
  "reads_width = max 2 (int (length ''Reads''))"

definition updates_width :: int where
  "updates_width = max 2 (int (length ''Updates''))"

definition column_width :: "Result list \<Rightarrow> string \<Rightarrow> int" where
  \<comment> \<open>lines 343-351: the body of the loop over \<open>columns\<close>\<close>
  "column_width results col =
     fold (\<lambda>result max_len.
             case map_of (times result) col of
               Some v \<Rightarrow> max max_len (int (length (to_string v)) + 3)
             | None \<Rightarrow> max_len)
          results (int (length col))"

definition column_widths_of :: "Result list \<Rightarrow> string list \<Rightarrow> int list" where
  "column_widths_of results columns = map (column_width results) columns"

definition printSeparator :: "string list \<Rightarrow> int list \<Rightarrow> ostream \<Rightarrow> ostream" where
  "printSeparator columns column_widths =
     emit ([put ''+'', setw (readers_width + 2), setfill CHR ''-'', put ''-'',
            put ''+'', setw (writers_width + 2), put ''-'',
            put ''+'', setw (reads_width + 2), put ''-'',
            put ''+'', setw (updates_width + 2), put ''-'']
           @ concat (map (\<lambda>i. [put ''+'', setw (column_widths ! i + 2), put ''-''])
                         [0 ..< length columns])
           @ [put ''+'', endl])"

definition printHeader :: "string list \<Rightarrow> int list \<Rightarrow> ostream \<Rightarrow> ostream" where
  \<comment> \<open>lines 368-375\<close>
  "printHeader columns column_widths =
     emit ([put ''| '', setw readers_width, setfill CHR '' '', put ''Readers'',
            put '' | '', setw writers_width, put ''Writers'',
            put '' | '', setw reads_width, put ''Reads'',
            put '' | '', setw updates_width, put ''Updates'']
           @ concat (map (\<lambda>i. [put '' | '', setw (column_widths ! i), put (columns ! i)])
                         [0 ..< length columns])
           @ [put '' |'', endl])"

definition time_cell :: "Result \<Rightarrow> string \<Rightarrow> string" where
  \<comment> \<open>lines 385-390: the text written into the cell of one timing column\<close>
  "time_cell result col =
     (case map_of (times result) col of
        Some v \<Rightarrow> to_string v @ '' ms''
      | None \<Rightarrow> ''N/A'')"

definition printRow :: "string list \<Rightarrow> int list \<Rightarrow> Result \<Rightarrow> ostream \<Rightarrow> ostream" where
  \<comment> \<open>lines 380-392\<close>
  "printRow columns column_widths result =
     emit ([put ''| '', setw readers_width, setfill CHR '' '', put_int (numReaders result),
            put '' | '', setw writers_width, put_int (numWriters result),
            put '' | '', setw reads_width, put_int (numReads result),
            put '' | '', setw updates_width, put_int (numUpdates result)]
           @ concat (map (\<lambda>i. [put '' | '', setfill CHR '' '', setw (column_widths ! i),
                                put (time_cell result (columns ! i))])
                         [0 ..< length columns])
           @ [put '' |'', endl])"

definition printBenchmarkTable :: "Result list \<Rightarrow> ostream \<Rightarrow> ostream" where
  "printBenchmarkTable results os =
     (let columns = columns_of results;
          column_widths = column_widths_of results columns
      in fold (\<lambda>result s. printSeparator columns column_widths (printRow columns column_widths result s))
              results
              (printSeparator columns column_widths
                 (printHeader columns column_widths
                    (printSeparator columns column_widths os))))"

subsection \<open>The table as text\<close>

text \<open>
  The text of a table, written down directly: a separator line, and a line of cells,
  each cell right-adjusted in its column between \<open>|\<close> bars. The theorems about the
  printer compare its output with these.
\<close>

definition separator_text :: "int list \<Rightarrow> string" where
  "separator_text ws =
     concat (map (\<lambda>w. ''+'' @ replicate (nat (w + 2)) CHR ''-'')
                 ([readers_width, writers_width, reads_width, updates_width] @ ws))
     @ ''+'' @ [CHR 0x0A]"

definition line_text :: "(int \<times> string) list \<Rightarrow> string" where
  "line_text cells =
     ''|'' @ concat (map (\<lambda>(w, c). '' '' @ padded CHR '' '' w c @ '' |'') cells) @ [CHR 0x0A]"

definition header_text :: "string list \<Rightarrow> int list \<Rightarrow> string" where
  "header_text columns ws =
     line_text ([(readers_width, ''Readers''), (writers_width, ''Writers''),
                 (reads_width, ''Reads''), (updates_width, ''Updates'')] @ zip ws columns)"

definition row_text :: "Result \<Rightarrow> int list \<Rightarrow> string list \<Rightarrow> string" where
  "row_text result ws cells =
     line_text ([(readers_width, to_string (numReaders result)),
                 (writers_width, to_string (numWriters result)),
                 (reads_width, to_string (numReads result)),
                 (updates_width, to_string (numUpdates result))] @ zip ws cells)"

definition example_results :: "Result list" where
  "example_results =
     [\<lparr>times = [(''Shared Mutex Time'', 1501), (''Standard Mutex Time'', 3012)],
       numReaders = 100, numWriters = 5, numReads = 10000, numUpdates = 1\<rparr>,
      \<lparr>times = [(''Shared Mutex Time'', 1460), (''Standard Mutex Time'', 2904)],
       numReaders = 100, numWriters = 5, numReads = 10000, numUpdates = 10\<rparr>]"

section \<open>\<open>RandomStringGenerator\<close>\<close>

text \<open>
  \<open>charset\<close> is the array of line 65: the 62 alphanumeric characters and the terminating
  NUL of the string literal, so \<open>sizeof(charset) - 1\<close> is 62.

  The random engine (\<open>std::mt19937\<close>) is a parameter: a function from the engine state to
  a raw number and the next state. \<open>std::uniform_int_distribution<>(a, b)\<close> is library
  code whose contract is that every result lies in the closed range from \<open>a\<close> to \<open>b\<close>; it is
  modelled by reducing the raw number into that range. Since the engine is arbitrary,
  every sequence of in-range results is the behaviour of some engine (lemma
  \<open>uniform_int_distribution_covers\<close>); uniformity is not modelled. The \<open>size_t\<close> length
  is a \<open>nat\<close>; failure to allocate the string is outside the model.
\<close>

definition charset :: string where
  "charset = ''abcdefghijklmnopqrstuvwxyzABCDEFGHIJKLMNOPQRSTUVWXYZ0123456789'' @ [CHR 0x00]"

definition charsetSize :: nat where
  "charsetSize = length charset - 1"

definition alphabet :: "char set" where
  \<comment> \<open>lowercase letters, uppercase letters and digits\<close>
  "alphabet = set ''abcdefghijklmnopqrstuvwxyz'' \<union> set ''ABCDEFGHIJKLMNOPQRSTUVWXYZ''
              \<union> set ''0123456789''"

definition uniform_int_distribution ::
  "nat \<Rightarrow> nat \<Rightarrow> ('g \<Rightarrow> nat \<times> 'g) \<Rightarrow> 'g \<Rightarrow> nat \<times> 'g" where
  "uniform_int_distribution a b engine generator =
     (case engine generator of (raw, generator') \<Rightarrow> (a + raw mod (b - a + 1), generator'))"

function generate_loop ::
  "('g \<Rightarrow> nat \<times> 'g) \<Rightarrow> nat \<Rightarrow> nat \<Rightarrow> string \<times> 'g \<Rightarrow> string \<times> 'g" where
  "generate_loop engine len i (randomString, generator) =
     (if i < len
      then (case uniform_int_distribution 0 (charsetSize - 1) engine generator of
              (k, generator') \<Rightarrow>
                generate_loop engine len (i + 1) (randomString @ [charset ! k], generator'))
      else (randomString, generator))"
  by pat_completeness auto
termination
  by (relation "measure (\<lambda>(engine, len, i, acc). len - i)") auto

declare generate_loop.simps [simp del]

definition generate :: "('g \<Rightarrow> nat \<times> 'g) \<Rightarrow> nat \<Rightarrow> 'g \<Rightarrow> string \<times> 'g" where
  \<comment> \<open>the generated string and the state of the calling thread's engine afterwards\<close>
  "generate engine len generator = generate_loop engine len 0 ([], generator)"

section \<open>\<open>SharedData\<close> and \<open>LockTester\<close>\<close>

text \<open>
  \<open>SharedData::counter\<close> is a 32-bit \<open>int\<close>: a \<open>32 word\<close> read with \<open>sint\<close>. Signed
  overflow of \<open>counter++\<close> is undefined in C++; the word wraps, and every statement about
  the counter's value below carries the bound under which no overflow occurs.

  The two mutexes of a \<open>LockTester\<close> are private, and only the lock guards inside the
  four thread functions touch them; they are part of the state of a run
  (\<open>run_state\<close>), where they start unlocked.
\<close>

record SharedData =
  counter :: "32 word"
  text_str :: string \<comment> \<open>the member \<open>text\<close>\<close>

record LockTester =
  times :: times_map
  numReaders :: int
  numWriters :: int
  numReads :: int
  numUpdates :: int
  sharedData :: SharedData

definition LockTester :: "int \<Rightarrow> int \<Rightarrow> int \<Rightarrow> int \<Rightarrow> LockTester" where
  \<comment> \<open>the constructor, lines 151-152, with the default member initialisers\<close>
  "LockTester nReaders nWriters nReads nUpdates =
     \<lparr>times = [], numReaders = nReaders, numWriters = nWriters, numReads = nReads,
      numUpdates = nUpdates, sharedData = \<lparr>counter = 0, text_str = []\<rparr>\<rparr>"

fun map_assign :: "string \<Rightarrow> int \<Rightarrow> times_map \<Rightarrow> times_map" where
  \<comment> \<open>\<open>m[k] = v\<close> on a \<open>std::map\<close>, kept in ascending key order\<close>
  "map_assign k v [] = [(k, v)]"
| "map_assign k v ((k', v') # m) =
     (if k = k' then (k, v) # m
      else if k < k' then (k, v) # (k', v') # m
      else (k', v') # map_assign k v m)"

subsection \<open>The threads of one run\<close>

text \<open>
  A thread executes one of the four private member functions. Between two steps of one
  thread any other thread may move. The steps of a thread are: acquiring its lock
  (possible only when the mutex admits it), and, holding the lock, the body of the loop.
  \<open>sharedData.counter++\<close> on a plain \<open>int\<close> is a read followed by a write, so a writer has a
  step that reads the counter (\<open>Loaded v\<close> remembers the value read) and a step that
  writes \<open>v + 1\<close>, assigns the text, releases the lock and increments \<open>i\<close>. A reader's reads
  into its \<open>volatile\<close> locals change no shared state.
\<close>

datatype entry = ReaderSharedLock | WriterSharedLock | ReaderStandardLock | WriterStandardLock

datatype pc = Idle | Locked | Loaded "32 word"

record 'g thread =
  entry :: entry
  i :: int
  pc :: pc
  generator :: 'g

record 'g run_state =
  data :: SharedData
  sm_shared :: nat \<comment> \<open>number of shared owners of \<open>sharedMutex\<close>\<close>
  sm_exclusive :: bool \<comment> \<open>\<open>sharedMutex\<close> is owned exclusively\<close>
  standardMutex :: bool \<comment> \<open>\<open>standardMutex\<close> is locked\<close>
  threads :: "'g thread list"

definition readerSharedLock ::
  "LockTester \<Rightarrow> 'g thread \<Rightarrow> 'g run_state \<Rightarrow> ('g thread \<times> 'g run_state) option" where
  "readerSharedLock tester t s =
     (case pc t of
        Idle \<Rightarrow>
          if i t < numReads tester
          then (if sm_exclusive s then None
                else Some (t\<lparr>pc := Locked\<rparr>, s\<lparr>sm_shared := sm_shared s + 1\<rparr>))
          else None
      | _ \<Rightarrow> Some (t\<lparr>i := i t + 1, pc := Idle\<rparr>, s\<lparr>sm_shared := sm_shared s - 1\<rparr>))"

definition writerSharedLock ::
  "('g \<Rightarrow> nat \<times> 'g) \<Rightarrow> LockTester \<Rightarrow> 'g thread \<Rightarrow> 'g run_state
     \<Rightarrow> ('g thread \<times> 'g run_state) option" where
  "writerSharedLock engine tester t s =
     (case pc t of
        Idle \<Rightarrow>
          if i t < numUpdates tester
          then (if sm_exclusive s \<or> sm_shared s \<noteq> 0 then None
                else Some (t\<lparr>pc := Locked\<rparr>, s\<lparr>sm_exclusive := True\<rparr>))
          else None
      | Locked \<Rightarrow> Some (t\<lparr>pc := Loaded (counter (data s))\<rparr>, s)
      | Loaded v \<Rightarrow>
          (case generate engine 100000 (generator t) of
             (payload, generator') \<Rightarrow>
               Some (t\<lparr>i := i t + 1, pc := Idle, generator := generator'\<rparr>,
                     s\<lparr>data := \<lparr>counter = v + 1, text_str = payload\<rparr>, sm_exclusive := False\<rparr>)))"

definition readerStandardLock ::
  "LockTester \<Rightarrow> 'g thread \<Rightarrow> 'g run_state \<Rightarrow> ('g thread \<times> 'g run_state) option" where
  "readerStandardLock tester t s =
     (case pc t of
        Idle \<Rightarrow>
          if i t < numReads tester
          then (if standardMutex s then None
                else Some (t\<lparr>pc := Locked\<rparr>, s\<lparr>standardMutex := True\<rparr>))
          else None
      | _ \<Rightarrow> Some (t\<lparr>i := i t + 1, pc := Idle\<rparr>, s\<lparr>standardMutex := False\<rparr>))"

definition writerStandardLock ::
  "('g \<Rightarrow> nat \<times> 'g) \<Rightarrow> LockTester \<Rightarrow> 'g thread \<Rightarrow> 'g run_state
     \<Rightarrow> ('g thread \<times> 'g run_state) option" where
  "writerStandardLock engine tester t s =
     (case pc t of
        Idle \<Rightarrow>
          if i t < numUpdates tester
          then (if standardMutex s then None
                else Some (t\<lparr>pc := Locked\<rparr>, s\<lparr>standardMutex := True\<rparr>))
          else None
      | Locked \<Rightarrow> Some (t\<lparr>pc := Loaded (counter (data s))\<rparr>, s)
      | Loaded v \<Rightarrow>
          (case generate engine 100000 (generator t) of
             (payload, generator') \<Rightarrow>
               Some (t\<lparr>i := i t + 1, pc := Idle, generator := generator'\<rparr>,
                     s\<lparr>data := \<lparr>counter = v + 1, text_str = payload\<rparr>, standardMutex := False\<rparr>)))"

definition thread_step ::
  "('g \<Rightarrow> nat \<times> 'g) \<Rightarrow> LockTester \<Rightarrow> 'g thread \<Rightarrow> 'g run_state
     \<Rightarrow> ('g thread \<times> 'g run_state) option" where
  "thread_step engine tester t s =
     (case entry t of
        ReaderSharedLock \<Rightarrow> readerSharedLock tester t s
      | WriterSharedLock \<Rightarrow> writerSharedLock engine tester t s
      | ReaderStandardLock \<Rightarrow> readerStandardLock tester t s
      | WriterStandardLock \<Rightarrow> writerStandardLock engine tester t s)"

definition step :: "('g \<Rightarrow> nat \<times> 'g) \<Rightarrow> LockTester \<Rightarrow> nat \<Rightarrow> 'g run_state \<Rightarrow> 'g run_state" where
  \<comment> \<open>the scheduler lets thread \<open>k\<close> move; a blocked or returned thread does nothing\<close>
  "step engine tester k s =
     (if k < length (threads s)
      then (case thread_step engine tester (threads s ! k) s of
              Some (t', s') \<Rightarrow> s'\<lparr>threads := (threads s)[k := t']\<rparr>
            | None \<Rightarrow> s)
      else s)"

definition returned :: "LockTester \<Rightarrow> 'g thread \<Rightarrow> bool" where
  \<comment> \<open>the thread function has left its loop\<close>
  "returned tester t =
     (pc t = Idle \<and>
      \<not> i t < (case entry t of
                  ReaderSharedLock \<Rightarrow> numReads tester
                | ReaderStandardLock \<Rightarrow> numReads tester
                | WriterSharedLock \<Rightarrow> numUpdates tester
                | WriterStandardLock \<Rightarrow> numUpdates tester))"

definition all_returned :: "LockTester \<Rightarrow> 'g run_state \<Rightarrow> bool" where
  "all_returned tester s = list_all (returned tester) (threads s)"

partial_function (option) join ::
  "('g \<Rightarrow> nat \<times> 'g) \<Rightarrow> LockTester \<Rightarrow> (nat \<Rightarrow> nat) \<Rightarrow> nat \<Rightarrow> 'g run_state
     \<Rightarrow> 'g run_state option" where
  "join engine tester schedule n s =
     (if all_returned tester s then Some s
      else join engine tester schedule (Suc n) (step engine tester (schedule n) s))"

declare join.simps [code]

primrec run_steps ::
  "('g \<Rightarrow> nat \<times> 'g) \<Rightarrow> LockTester \<Rightarrow> (nat \<Rightarrow> nat) \<Rightarrow> nat \<Rightarrow> 'g run_state \<Rightarrow> 'g run_state" where
  \<comment> \<open>the state after the first \<open>n\<close> choices of the scheduler\<close>
  "run_steps engine tester schedule 0 s = s"
| "run_steps engine tester schedule (Suc n) s =
     step engine tester (schedule n) (run_steps engine tester schedule n s)"

definition fair :: "nat \<Rightarrow> (nat \<Rightarrow> nat) \<Rightarrow> bool" where
  \<comment> \<open>every one of the \<open>n\<close> threads is scheduled again and again\<close>
  "fair n schedule = (\<forall>k<n. \<forall>m. \<exists>m'\<ge>m. schedule m' = k)"

subsection \<open>\<open>testSharedMutex\<close> and \<open>testStandardMutex\<close>\<close>

text \<open>
  What the program takes from its surroundings is collected in \<open>env\<close>: the readings of
  \<open>high_resolution_clock::now()\<close> in the order of the calls (in ticks of a nanosecond),
  for each run the scheduler's choices and the seeds \<open>std::random_device\<close> gives to the
  thread-local engines, and the engine. \<open>world\<close> counts the calls of \<open>now()\<close> and the runs
  made so far. The threads of a run are all present from the start; a thread that has
  not been created yet is a thread that has not been scheduled yet. \<open>join\<close> waits until
  every thread function has returned and is \<open>None\<close> when that never happens.
\<close>

record 'g env =
  clock :: "nat \<Rightarrow> int"
  sched :: "nat \<Rightarrow> nat \<Rightarrow> nat"
  seed :: "nat \<Rightarrow> nat \<Rightarrow> 'g"
  engine :: "'g \<Rightarrow> nat \<times> 'g"

record world =
  now_calls :: nat
  runs :: nat

definition duration_ms :: "int \<Rightarrow> int" where
  \<comment> \<open>\<open>duration_cast<milliseconds>(d).count()\<close>: truncation towards zero\<close>
  "duration_ms d = sgn d * (\<bar>d\<bar> div 1000000)"

definition spawn :: "'g env \<Rightarrow> world \<Rightarrow> entry \<Rightarrow> nat \<Rightarrow> int \<Rightarrow> 'g thread list" where
  \<comment> \<open>\<open>for (int i = 0; i < n; ++i) v.emplace_back(f, this)\<close>; \<open>first\<close> numbers the seeds\<close>
  "spawn env w f first n =
     map (\<lambda>k. \<lparr>entry = f, i = 0, pc = Idle, generator = seed env (runs w) (first + k)\<rparr>)
         [0 ..< nat n]"

definition start_run :: "'g env \<Rightarrow> world \<Rightarrow> entry \<Rightarrow> entry \<Rightarrow> LockTester \<Rightarrow> 'g run_state" where
  "start_run env w reader writer tester =
     \<lparr>data = sharedData tester, sm_shared = 0, sm_exclusive = False, standardMutex = False,
      threads = spawn env w reader 0 (numReaders tester)
                @ spawn env w writer (nat (numReaders tester)) (numWriters tester)\<rparr>"

definition timed_run ::
  "'g env \<Rightarrow> entry \<Rightarrow> entry \<Rightarrow> string \<Rightarrow> LockTester \<times> world \<Rightarrow> (LockTester \<times> world) option" where
  \<comment> \<open>the common shape of lines 166-181 and 189-204\<close>
  "timed_run env reader writer key tw =
     (case tw of (tester, w) \<Rightarrow>
        (let start = clock env (now_calls w) in
         case join (engine env) tester (sched env (runs w)) 0 (start_run env w reader writer tester) of
           None \<Rightarrow> None
         | Some s \<Rightarrow>
             (let end = clock env (now_calls w + 1) in
              Some (tester\<lparr>times := map_assign key (duration_ms (end - start)) (times tester),
                           sharedData := data s\<rparr>,
                    w\<lparr>now_calls := now_calls w + 2, runs := runs w + 1\<rparr>))))"

definition testSharedMutex :: "'g env \<Rightarrow> LockTester \<times> world \<Rightarrow> (LockTester \<times> world) option" where
  "testSharedMutex env = timed_run env ReaderSharedLock WriterSharedLock ''Shared Mutex Time''"

definition testStandardMutex :: "'g env \<Rightarrow> LockTester \<times> world \<Rightarrow> (LockTester \<times> world) option" where
  "testStandardMutex env = timed_run env ReaderStandardLock WriterStandardLock ''Standard Mutex Time''"

subsection \<open>Invariant and measure of a run\<close>

text \<open>
  The notions used to reason about all interleavings of a run. \<open>bound\<close> is the bound of
  the loop a thread executes. \<open>holds_shared\<close>, \<open>holds_exclusive\<close> and \<open>holds_standard\<close>
  say (as 0 or 1) whether a thread owns \<open>sharedMutex\<close> shared, \<open>sharedMutex\<close>
  exclusively, or \<open>standardMutex\<close>; \<open>updates_done\<close> is the number of completed
  iterations of a writer. \<open>run_inv\<close> ties the state of the mutexes to the threads that
  own them and the counter to the iterations completed since the run began with the
  counter at \<open>c0\<close>. \<open>remaining\<close> counts the steps a thread still has to take.
\<close>

definition bound :: "LockTester \<Rightarrow> 'g thread \<Rightarrow> int" where
  "bound tester t =
     (case entry t of
        ReaderSharedLock \<Rightarrow> numReads tester
      | ReaderStandardLock \<Rightarrow> numReads tester
      | WriterSharedLock \<Rightarrow> numUpdates tester
      | WriterStandardLock \<Rightarrow> numUpdates tester)"

definition is_writer :: "'g thread \<Rightarrow> bool" where
  "is_writer t = (entry t = WriterSharedLock \<or> entry t = WriterStandardLock)"

definition holds_shared :: "'g thread \<Rightarrow> nat" where
  "holds_shared t = (if entry t = ReaderSharedLock \<and> pc t \<noteq> Idle then 1 else 0)"

definition holds_exclusive :: "'g thread \<Rightarrow> nat" where
  "holds_exclusive t = (if entry t = WriterSharedLock \<and> pc t \<noteq> Idle then 1 else 0)"

definition holds_standard :: "'g thread \<Rightarrow> nat" where
  "holds_standard t =
     (if (entry t = ReaderStandardLock \<or> entry t = WriterStandardLock) \<and> pc t \<noteq> Idle
      then 1 else 0)"

definition updates_done :: "'g thread \<Rightarrow> nat" where
  "updates_done t = (if is_writer t then nat (i t) else 0)"

definition remaining :: "LockTester \<Rightarrow> 'g thread \<Rightarrow> nat" where
  "remaining tester t =
     3 * nat (bound tester t - i t) - (case pc t of Idle \<Rightarrow> 0 | Locked \<Rightarrow> 1 | Loaded v \<Rightarrow> 2)"

definition total_of :: "('g thread \<Rightarrow> nat) \<Rightarrow> 'g run_state \<Rightarrow> nat" where
  "total_of f s = sum_list (map f (threads s))"

definition one_strategy :: "entry list \<Rightarrow> bool" where
  "one_strategy es =
     (set es \<subseteq> {ReaderSharedLock, WriterSharedLock}
      \<or> set es \<subseteq> {ReaderStandardLock, WriterStandardLock})"

definition thread_ok :: "LockTester \<Rightarrow> 'g run_state \<Rightarrow> 'g thread \<Rightarrow> bool" where
  "thread_ok tester s t =
     (0 \<le> i t \<and> i t \<le> max 0 (bound tester t)
      \<and> (pc t \<noteq> Idle \<longrightarrow> i t < bound tester t)
      \<and> (\<forall>v. pc t = Loaded v \<longrightarrow> is_writer t \<and> v = counter (data s)))"

definition run_inv :: "LockTester \<Rightarrow> entry list \<Rightarrow> 32 word \<Rightarrow> 'g run_state \<Rightarrow> bool" where
  "run_inv tester es c0 s =
     (map entry (threads s) = es \<and> one_strategy es
      \<and> sm_shared s = total_of holds_shared s
      \<and> of_bool (sm_exclusive s) = total_of holds_exclusive s
      \<and> of_bool (standardMutex s) = total_of holds_standard s
      \<and> (sm_exclusive s \<longrightarrow> sm_shared s = 0)
      \<and> list_all (thread_ok tester s) (threads s)
      \<and> counter (data s) = c0 + of_nat (total_of updates_done s))"

definition strategy :: "entry \<Rightarrow> entry \<Rightarrow> bool" where
  \<comment> \<open>the two pairs of thread functions the program runs together\<close>
  "strategy rd wr = (rd = ReaderSharedLock \<and> wr = WriterSharedLock
                     \<or> rd = ReaderStandardLock \<and> wr = WriterStandardLock)"

definition enabled :: "('g \<Rightarrow> nat \<times> 'g) \<Rightarrow> LockTester \<Rightarrow> nat \<Rightarrow> 'g run_state \<Rightarrow> bool" where
  \<comment> \<open>thread \<open>k\<close> can take a step\<close>
  "enabled eng tester k s =
     (k < length (threads s) \<and> thread_step eng tester (threads s ! k) s \<noteq> None)"

section \<open>\<open>Benchmark\<close>\<close>

text \<open>
  \<open>std::move(tester.times)\<close> leaves the tester's map empty (what the moved-from map is in
  the standard libraries in use; the standard only says valid but unspecified).
\<close>

record Benchmark =
  testCases :: "LockTester list"
  results :: "Result list"

definition Benchmark :: Benchmark where
  "Benchmark = \<lparr>testCases = [], results = []\<rparr>"

definition addTestCase :: "int \<Rightarrow> int \<Rightarrow> int \<Rightarrow> int \<Rightarrow> Benchmark \<Rightarrow> Benchmark" where
  "addTestCase nReaders nWriters nReads nUpdates b =
     b\<lparr>testCases := testCases b @ [LockTester nReaders nWriters nReads nUpdates]\<rparr>"

definition result_of :: "LockTester \<Rightarrow> Result" where
  \<comment> \<open>lines 307-312\<close>
  "result_of tester =
     \<lparr>Result.times = times tester, Result.numReaders = numReaders tester,
      Result.numWriters = numWriters tester, Result.numReads = numReads tester,
      Result.numUpdates = numUpdates tester\<rparr>"

fun run_loop ::
  "'g env \<Rightarrow> LockTester list \<Rightarrow> LockTester list \<times> Result list \<times> world
     \<Rightarrow> (LockTester list \<times> Result list \<times> world) option" where
  \<comment> \<open>the loop of lines 302-314 over the test cases still to run; the first component
      collects the testers already run\<close>
  "run_loop env [] acc = Some acc"
| "run_loop env (tester # rest) (finished, res, w) =
     (case testSharedMutex env (tester, w) of
        None \<Rightarrow> None
      | Some (tester1, w1) \<Rightarrow>
          (case testStandardMutex env (tester1, w1) of
             None \<Rightarrow> None
           | Some (tester2, w2) \<Rightarrow>
               run_loop env rest
                 (finished @ [tester2\<lparr>times := []\<rparr>], res @ [result_of tester2], w2)))"

definition run :: "'g env \<Rightarrow> Benchmark \<times> world \<Rightarrow> (Benchmark \<times> world) option" where
  "run env bw =
     (case bw of (b, w) \<Rightarrow>
        (case run_loop env (testCases b) ([], results b, w) of
           None \<Rightarrow> None
         | Some (testers, res, w') \<Rightarrow> Some (b\<lparr>testCases := testers, results := res\<rparr>, w')))"

text \<open>
  \<open>build\<close> is a chain \<open>Benchmark().addTestCase(...).addTestCase(...)\<close>, one call for each
  configuration of the list, in order (\<open>main\<close> builds the list of two configurations
  \<open>(100, 5, 10000, 1)\<close> and \<open>(100, 5, 10000, 10)\<close>).
  \<open>trial_result\<close> is the result a trial is expected to append.
  \<open>counter_after\<close> reads the counter, as the \<open>int\<close> it is, of the tester a run returned.
\<close>

definition build :: "(int \<times> int \<times> int \<times> int) list \<Rightarrow> Benchmark" where
  "build cfgs = fold (\<lambda>(a, b, c, d). addTestCase a b c d) cfgs Benchmark"

definition trial_result :: "'g env \<Rightarrow> nat \<Rightarrow> LockTester \<Rightarrow> Result" where
  \<comment> \<open>the result of the trial of a tester whose first clock reading is reading number \<open>n\<close>\<close>
  "trial_result env n tester =
     \<lparr>Result.times =
        [(''Shared Mutex Time'', duration_ms (clock env (n + 1) - clock env n)),
         (''Standard Mutex Time'', duration_ms (clock env (n + 3) - clock env (n + 2)))],
      Result.numReaders = numReaders tester, Result.numWriters = numWriters tester,
      Result.numReads = numReads tester, Result.numUpdates = numUpdates tester\<rparr>"

definition counter_after :: "(LockTester \<times> world) option \<Rightarrow> int option" where
  "counter_after r = map_option (\<lambda>(tester, w). sint (counter (sharedData tester))) r"

definition elapsed_after :: "string \<Rightarrow> (LockTester \<times> world) option \<Rightarrow> int option" where
  \<comment> \<open>the time stored under a key in the map of the tester a run returned\<close>
  "elapsed_after key r = Option.bind r (\<lambda>(tester, w). map_of (times tester) key)"

section \<open>Sample surroundings\<close>

text \<open>
  A concrete \<open>env\<close>, used where a statement is evaluated at a concrete input: the clock
  advances by 2.5 ms between two readings, the scheduler serves three threads in turn,
  and the engine is a small counter.
\<close>

definition sample_env :: "nat env" where
  "sample_env = \<lparr>clock = (\<lambda>n. int n * 2500000), sched = (\<lambda>r n. n mod 3),
                  seed = (\<lambda>r k. r + k), engine = (\<lambda>g. (g * 7 + 3, g + 1))\<rparr>"

definition world0 :: world where
  "world0 = \<lparr>now_calls = 0, runs = 0\<rparr>"

text \<open>
  The same surroundings with a clock that is set back by 1.5 ms between two readings, as
  a clock that is not steady can be.
\<close>

definition backwards_env :: "nat env" where
  "backwards_env = sample_env\<lparr>clock := (\<lambda>n. - (int n * 1500000))\<rparr>"

section \<open>Properties of the random string generator\<close>

lemma generate_loop_length:
  "length (fst (generate_loop eng len n (acc, g))) = length acc + (len - n)"
proof (induction eng len n "(acc, g)" arbitrary: acc g rule: generate_loop.induct)
  case (1 eng len n acc g)
  show ?case
  proof (cases "n < len")
    case True
    obtain k g' where kg: "uniform_int_distribution 0 (charsetSize - 1) eng g = (k, g')"
      by (cases "uniform_int_distribution 0 (charsetSize - 1) eng g")
    from True kg "1.hyps"[OF True kg[symmetric]] show ?thesis
      by (subst generate_loop.simps) simp
  next
    case False
    then show ?thesis by (subst generate_loop.simps) simp
  qed
qed

lemma uniform_int_distribution_range:
  assumes "a \<le> b"
  shows "a \<le> fst (uniform_int_distribution a b eng g) \<and> fst (uniform_int_distribution a b eng g) \<le> b"
proof -
  obtain raw g' where e: "eng g = (raw, g')" by (cases "eng g")
  have "raw mod (b - a + 1) < b - a + 1" by simp
  with assms have "a + raw mod (b - a + 1) \<le> b" by linarith
  then show ?thesis by (simp add: uniform_int_distribution_def e)
qed

lemma uniform_int_distribution_covers:
  assumes "\<forall>g. a \<le> fst (f g) \<and> fst (f g) \<le> b"
  shows "uniform_int_distribution a b (\<lambda>g. (fst (f g) - a, snd (f g))) = f"
proof
  fix g
  from assms have "a \<le> fst (f g)" "fst (f g) \<le> b" by auto
  then have "a \<le> fst (f g)" "fst (f g) - a < b - a + 1" by linarith+
  then show "uniform_int_distribution a b (\<lambda>g. (fst (f g) - a, snd (f g))) g = f g"
    by (simp add: uniform_int_distribution_def prod_eq_iff)
qed

lemma take_charset: "take charsetSize charset = ''abcdefghijklmnopqrstuvwxyz'' @ ''ABCDEFGHIJKLMNOPQRSTUVWXYZ'' @ ''0123456789''"
  by (simp add: charsetSize_def charset_def)

lemma charset_alphabet: 
  assumes "k < charsetSize" shows "charset ! k \<in> alphabet"
proof -
  have "charsetSize \<le> length charset" by (simp add: charsetSize_def)
  with assms have "charset ! k \<in> set (take charsetSize charset)"
    by (metis in_set_conv_nth length_take min.absorb2 nth_take)
  then show ?thesis
    unfolding take_charset alphabet_def by (simp only: set_append Un_assoc)
qed

lemma generate_loop_set:
  "set (fst (generate_loop eng len n (acc, g))) \<subseteq> set acc \<union> alphabet"
proof (induction eng len n "(acc, g)" arbitrary: acc g rule: generate_loop.induct)
  case (1 eng len n acc g)
  show ?case
  proof (cases "n < len")
    case True
    obtain k g' where kg: "uniform_int_distribution 0 (charsetSize - 1) eng g = (k, g')"
      by (cases "uniform_int_distribution 0 (charsetSize - 1) eng g")
    have "k \<le> charsetSize - 1"
      using uniform_int_distribution_range[of 0 "charsetSize - 1" eng g] kg by simp
    then have "charset ! k \<in> alphabet"
      by (intro charset_alphabet) (simp add: charsetSize_def charset_def)
    with True kg "1.hyps"[OF True kg[symmetric]] show ?thesis
      by (subst generate_loop.simps) auto
  next
    case False
    then show ?thesis by (subst generate_loop.simps) simp
  qed
qed

text \<open>
  Claim C5. For every length \<open>n\<close>, \<open>RandomStringGenerator::generate(n)\<close> returns a string of
  exactly \<open>n\<close> characters, each of them a lowercase letter, an uppercase letter or a
  digit; that alphabet has 62 characters; \<open>generate(0)\<close> returns the empty string.
\<close>

theorem generate_length_alphabet:
  "length (fst (generate eng n g)) = n \<and> set (fst (generate eng n g)) \<subseteq> alphabet
   \<and> fst (generate eng 0 g) = [] \<and> card alphabet = 62"
proof -
  have "length (fst (generate eng n g)) = n"
    by (simp add: generate_def generate_loop_length)
  moreover have "set (fst (generate eng n g)) \<subseteq> alphabet"
    using generate_loop_set[of eng n 0 "[]" g] by (simp add: generate_def)
  moreover have "fst (generate eng 0 g) = []"
    by (simp add: generate_def generate_loop.simps)
  moreover have "card alphabet = 62"
    unfolding alphabet_def by (simp add: card_insert_if)
  ultimately show ?thesis by blast
qed

section \<open>Properties of the table printer\<close>

lemma emit_Nil [simp]: "emit [] os = os"
  by (simp add: emit_def)

lemma emit_Cons [simp]: "emit (f # fs) os = emit fs (f os)"
  by (simp add: emit_def)

lemma emit_append [simp]: "emit (fs @ gs) os = emit gs (emit fs os)"
  by (simp add: emit_def)

text \<open>
  Claim C10. With an empty result sequence \<open>printBenchmarkTable\<close> prints a separator, the
  header with exactly the four fixed columns Readers, Writers, Reads and Updates, and a
  separator: no timing column and no data row.
\<close>

theorem printBenchmarkTable_empty:
  "out (printBenchmarkTable [] cout) =
     ''+---------+---------+-------+---------+'' @ [CHR 0x0A] @
     ''| Readers | Writers | Reads | Updates |'' @ [CHR 0x0A] @
     ''+---------+---------+-------+---------+'' @ [CHR 0x0A]"
  by (simp add: printBenchmarkTable_def columns_of_def column_widths_of_def printSeparator_def
      printHeader_def put_def setw_def setfill_def endl_def padded_def cout_def
      readers_width_def writers_width_def reads_width_def updates_width_def eval_nat_numeral)

lemma put_fields [simp]:
  "out (put s os) = out os @ padded (fill os) (width os) s"
  "fill (put s os) = fill os" "width (put s os) = 0"
  by (simp_all add: put_def)

lemma setw_fields [simp]:
  "out (setw n os) = out os" "fill (setw n os) = fill os" "width (setw n os) = n"
  by (simp_all add: setw_def)

lemma setfill_fields [simp]:
  "out (setfill c os) = out os" "fill (setfill c os) = c" "width (setfill c os) = width os"
  by (simp_all add: setfill_def)

lemma endl_fields [simp]:
  "out (endl os) = out os @ [CHR 0x0A]" "fill (endl os) = fill os" "width (endl os) = width os"
  by (simp_all add: endl_def)

lemma padded_zero [simp]: "padded c 0 s = s"
  by (simp add: padded_def)

lemma padded_dash: "1 \<le> w \<Longrightarrow> padded CHR ''-'' w ''-'' = replicate (nat w) CHR ''-''"
proof -
  assume "1 \<le> w"
  then have "nat w = Suc (nat (w - 1))" by simp
  then have "replicate (nat w) CHR ''-'' = replicate (nat (w - 1)) CHR ''-'' @ ''-''"
    by (simp only: replicate_Suc replicate_append_same)
  then show ?thesis
    by (simp add: padded_def)
qed

lemma emit_separator_columns:
  "width os = 0 \<Longrightarrow> fill os = CHR ''-'' \<Longrightarrow>
     out (emit (concat (map (\<lambda>k. [put ''+'', setw (ws ! k + 2), put ''-'']) ks)) os)
       = out os @ concat (map (\<lambda>k. ''+'' @ padded CHR ''-'' (ws ! k + 2) ''-'') ks)
     \<and> width (emit (concat (map (\<lambda>k. [put ''+'', setw (ws ! k + 2), put ''-'']) ks)) os) = 0
     \<and> fill (emit (concat (map (\<lambda>k. [put ''+'', setw (ws ! k + 2), put ''-'']) ks)) os) = CHR ''-''"
  by (induction ks arbitrary: os) simp_all

lemma emit_header_columns:
  "width os = 0 \<Longrightarrow> fill os = CHR '' '' \<Longrightarrow>
     out (emit (concat (map (\<lambda>k. [put '' | '', setw (ws ! k), put (cs ! k)]) ks)) os)
       = out os @ concat (map (\<lambda>k. '' | '' @ padded CHR '' '' (ws ! k) (cs ! k)) ks)
     \<and> width (emit (concat (map (\<lambda>k. [put '' | '', setw (ws ! k), put (cs ! k)]) ks)) os) = 0
     \<and> fill (emit (concat (map (\<lambda>k. [put '' | '', setw (ws ! k), put (cs ! k)]) ks)) os) = CHR '' ''"
  by (induction ks arbitrary: os) simp_all

lemma emit_row_columns:
  "width os = 0 \<Longrightarrow> fill os = CHR '' '' \<Longrightarrow>
     out (emit (concat (map (\<lambda>k. [put '' | '', setfill CHR '' '', setw (ws ! k), put (f (cs ! k))]) ks)) os)
       = out os @ concat (map (\<lambda>k. '' | '' @ padded CHR '' '' (ws ! k) (f (cs ! k))) ks)
     \<and> width (emit (concat (map (\<lambda>k. [put '' | '', setfill CHR '' '', setw (ws ! k), put (f (cs ! k))]) ks)) os) = 0
     \<and> fill (emit (concat (map (\<lambda>k. [put '' | '', setfill CHR '' '', setw (ws ! k), put (f (cs ! k))]) ks)) os) = CHR '' ''"
  by (induction ks arbitrary: os) simp_all

lemma column_width_fold_ge:
  "a \<le> fold (\<lambda>result max_len. case map_of (Result.times result) col of
                 Some v \<Rightarrow> max max_len (int (length (to_string v)) + 3) | None \<Rightarrow> max_len) rs a"
proof (induction rs arbitrary: a)
  case Nil
  show ?case by simp
next
  case (Cons r rs)
  show ?case
  proof (cases "map_of (Result.times r) col")
    case None
    with Cons[of a] show ?thesis by simp
  next
    case (Some v)
    with Cons[of "max a (int (length (to_string v)) + 3)"] show ?thesis by simp
  qed
qed

lemma column_width_ge_header: "int (length col) \<le> column_width rs col"
  unfolding column_width_def by (rule column_width_fold_ge)

lemma map_nth_upt: "length ws = n \<Longrightarrow> map (\<lambda>k. f (ws ! k)) [0 ..< n] = map f ws"
  by (simp add: list_eq_iff_nth_eq)


lemma fixed_widths [simp]: "readers_width = 7" "writers_width = 7" "reads_width = 5" "updates_width = 7"
  by (simp_all add: readers_width_def writers_width_def reads_width_def updates_width_def)


lemma printSeparator_out:
  assumes "width os = 0" and "length ws = length cols" and "\<forall>w \<in> set ws. 0 \<le> w"
  shows "out (printSeparator cols ws os) = out os @ separator_text ws
         \<and> width (printSeparator cols ws os) = 0"
proof -
  let ?os = "emit [put ''+'', setw (readers_width + 2), setfill CHR ''-'', put ''-'',
            put ''+'', setw (writers_width + 2), put ''-'',
            put ''+'', setw (reads_width + 2), put ''-'',
            put ''+'', setw (updates_width + 2), put ''-''] os"
  have fixed: "out ?os = out os @ concat (map (\<lambda>w. ''+'' @ replicate (nat (w + 2)) CHR ''-'')
                 [readers_width, writers_width, reads_width, updates_width])"
    "width ?os = 0" "fill ?os = CHR ''-''"
    using assms(1) by (simp_all add: padded_dash)
  have "map (\<lambda>k. ''+'' @ padded CHR ''-'' (ws ! k + 2) ''-'') [0 ..< length cols]
        = map (\<lambda>w. ''+'' @ padded CHR ''-'' (w + 2) ''-'') ws"
    using assms(2) map_nth_upt[of ws "length cols" "\<lambda>w. ''+'' @ padded CHR ''-'' (w + 2) ''-''"]
    by simp
  also have "\<dots> = map (\<lambda>w. ''+'' @ replicate (nat (w + 2)) CHR ''-'') ws"
    using assms(3) by (intro map_cong refl) (simp add: padded_dash)
  finally have cols: "map (\<lambda>k. ''+'' @ padded CHR ''-'' (ws ! k + 2) ''-'') [0 ..< length cols]
        = map (\<lambda>w. ''+'' @ replicate (nat (w + 2)) CHR ''-'') ws" .
  show ?thesis
    unfolding printSeparator_def emit_append
    using emit_separator_columns[OF fixed(2,3), of ws "[0 ..< length cols]"] fixed(1) cols
    by (simp add: separator_text_def)
qed

lemma zip_nth_upt:
  assumes "length ws = length cs"
  shows "map (\<lambda>k. g (ws ! k) (cs ! k)) [0 ..< length cs] = map (\<lambda>(w, c). g w c) (zip ws cs)"
proof (rule nth_equalityI)
  show "length (map (\<lambda>k. g (ws ! k) (cs ! k)) [0 ..< length cs])
        = length (map (\<lambda>(w, c). g w c) (zip ws cs))"
    by (simp add: assms)
next
  fix k
  assume "k < length (map (\<lambda>k. g (ws ! k) (cs ! k)) [0 ..< length cs])"
  then have k: "k < length cs" by simp
  then show "map (\<lambda>k. g (ws ! k) (cs ! k)) [0 ..< length cs] ! k
             = map (\<lambda>(w, c). g w c) (zip ws cs) ! k"
    by (simp add: assms)
qed

lemma cells_shift:
  "concat (map (\<lambda>(w, c). '' | '' @ padded f w c) cells) @ '' |''
   = '' |'' @ concat (map (\<lambda>(w, c). '' '' @ padded f w c @ '' |'') cells)"
  by (induction cells) auto


lemma zip_nth_upt_map:
  assumes "length ws = length cs"
  shows "map (\<lambda>k. g (ws ! k) (f (cs ! k))) [0 ..< length cs]
         = map (\<lambda>(w, c). g w c) (zip ws (map f cs))"
proof (rule nth_equalityI)
  show "length (map (\<lambda>k. g (ws ! k) (f (cs ! k))) [0 ..< length cs])
        = length (map (\<lambda>(w, c). g w c) (zip ws (map f cs)))"
    by (simp add: assms)
next
  fix k
  assume "k < length (map (\<lambda>k. g (ws ! k) (f (cs ! k))) [0 ..< length cs])"
  then have k: "k < length cs" by simp
  then show "map (\<lambda>k. g (ws ! k) (f (cs ! k))) [0 ..< length cs] ! k
             = map (\<lambda>(w, c). g w c) (zip ws (map f cs)) ! k"
    by (simp add: assms)
qed

lemma line_text_eq:
  "line_text ((w0, c0) # cells)
   = ''| '' @ padded CHR '' '' w0 c0 @ concat (map (\<lambda>(w, c). '' | '' @ padded CHR '' '' w c) cells)
     @ '' |'' @ [CHR 0x0A]"
  using cells_shift[of "CHR '' ''" cells] by (simp add: line_text_def)

lemma printHeader_out:
  assumes "width os = 0" and "length ws = length cols"
  shows "out (printHeader cols ws os) = out os @ header_text cols ws
         \<and> width (printHeader cols ws os) = 0"
proof -
  let ?fixed = "[put ''| '', setw readers_width, setfill CHR '' '', put ''Readers'',
            put '' | '', setw writers_width, put ''Writers'',
            put '' | '', setw reads_width, put ''Reads'',
            put '' | '', setw updates_width, put ''Updates'']"
  let ?loop = "concat (map (\<lambda>k. [put '' | '', setw (ws ! k), put (cols ! k)]) [0 ..< length cols])"
  have fixed: "out (emit ?fixed os) = out os @ ''| '' @ padded CHR '' '' readers_width ''Readers''
                 @ '' | '' @ padded CHR '' '' writers_width ''Writers''
                 @ '' | '' @ padded CHR '' '' reads_width ''Reads''
                 @ '' | '' @ padded CHR '' '' updates_width ''Updates''"
    "width (emit ?fixed os) = 0" "fill (emit ?fixed os) = CHR '' ''"
    using assms(1) by simp_all
  note loop = emit_header_columns[OF fixed(2,3), of ws cols "[0 ..< length cols]"]
  have cells: "map (\<lambda>k. '' | '' @ padded CHR '' '' (ws ! k) (cols ! k)) [0 ..< length cols]
               = map (\<lambda>(w, c). '' | '' @ padded CHR '' '' w c) (zip ws cols)"
    using zip_nth_upt[OF assms(2), of "\<lambda>w c. '' | '' @ padded CHR '' '' w c"] by simp
  have "out (printHeader cols ws os) = out (emit ?loop (emit ?fixed os)) @ '' |'' @ [CHR 0x0A]"
    using loop by (simp add: printHeader_def)
  also have "\<dots> = out os @ header_text cols ws"
    unfolding header_text_def append_Cons line_text_eq
    using loop fixed(1) cells by simp
  finally have "out (printHeader cols ws os) = out os @ header_text cols ws" .
  moreover have "width (printHeader cols ws os) = 0"
    using loop by (simp add: printHeader_def)
  ultimately show ?thesis by blast
qed

lemma printRow_out:
  assumes "width os = 0" and "length ws = length cols"
  shows "out (printRow cols ws r os) = out os @ row_text r ws (map (time_cell r) cols)
         \<and> width (printRow cols ws r os) = 0"
proof -
  let ?fixed = "[put ''| '', setw readers_width, setfill CHR '' '', put_int (Result.numReaders r),
            put '' | '', setw writers_width, put_int (Result.numWriters r),
            put '' | '', setw reads_width, put_int (Result.numReads r),
            put '' | '', setw updates_width, put_int (Result.numUpdates r)]"
  let ?loop = "concat (map (\<lambda>k. [put '' | '', setfill CHR '' '', setw (ws ! k),
                                put (time_cell r (cols ! k))]) [0 ..< length cols])"
  have fixed: "out (emit ?fixed os) = out os
                 @ ''| '' @ padded CHR '' '' readers_width (to_string (Result.numReaders r))
                 @ '' | '' @ padded CHR '' '' writers_width (to_string (Result.numWriters r))
                 @ '' | '' @ padded CHR '' '' reads_width (to_string (Result.numReads r))
                 @ '' | '' @ padded CHR '' '' updates_width (to_string (Result.numUpdates r))"
    "width (emit ?fixed os) = 0" "fill (emit ?fixed os) = CHR '' ''"
    using assms(1) by (simp_all add: put_int_def)
  note loop = emit_row_columns[OF fixed(2,3), of ws "time_cell r" cols "[0 ..< length cols]"]
  have cells: "map (\<lambda>k. '' | '' @ padded CHR '' '' (ws ! k) (time_cell r (cols ! k))) [0 ..< length cols]
               = map (\<lambda>(w, c). '' | '' @ padded CHR '' '' w c) (zip ws (map (time_cell r) cols))"
    using zip_nth_upt_map[OF assms(2), of "\<lambda>w c. '' | '' @ padded CHR '' '' w c" "time_cell r"] by simp
  have "out (printRow cols ws r os) = out (emit ?loop (emit ?fixed os)) @ '' |'' @ [CHR 0x0A]"
    using loop by (simp add: printRow_def)
  also have "\<dots> = out os @ row_text r ws (map (time_cell r) cols)"
    unfolding row_text_def append_Cons line_text_eq
    using loop fixed(1) cells by simp
  finally have "out (printRow cols ws r os) = out os @ row_text r ws (map (time_cell r) cols)" .
  moreover have "width (printRow cols ws r os) = 0"
    using loop by (simp add: printRow_def)
  ultimately show ?thesis by blast
qed


lemma rows_out:
  assumes "length ws = length cols" and "\<forall>w \<in> set ws. 0 \<le> w"
  shows "width os = 0 \<Longrightarrow>
     out (fold (\<lambda>r s. printSeparator cols ws (printRow cols ws r s)) rs os)
       = out os @ concat (map (\<lambda>r. row_text r ws (map (time_cell r) cols) @ separator_text ws) rs)"
proof (induction rs arbitrary: os)
  case Nil
  show ?case by simp
next
  case (Cons r rs)
  let ?os1 = "printRow cols ws r os"
  let ?os2 = "printSeparator cols ws ?os1"
  have r1: "out ?os1 = out os @ row_text r ws (map (time_cell r) cols)" "width ?os1 = 0"
    using printRow_out[OF Cons.prems assms(1)] by simp_all
  have r2: "out ?os2 = out ?os1 @ separator_text ws" "width ?os2 = 0"
    using printSeparator_out[OF r1(2) assms] by simp_all
  show ?case
    using Cons.IH[OF r2(2)] r1(1) r2(1) by simp
qed

lemma printBenchmarkTable_out:
  "out (printBenchmarkTable rs cout) =
     (let cols = columns_of rs; ws = column_widths_of rs cols
      in separator_text ws @ header_text cols ws @ separator_text ws
         @ concat (map (\<lambda>r. row_text r ws (map (time_cell r) cols) @ separator_text ws) rs))"
proof -
  define cols where "cols = columns_of rs"
  define ws where "ws = column_widths_of rs cols"
  have len: "length ws = length cols" by (simp add: ws_def column_widths_of_def)
  have nonneg: "\<forall>w \<in> set ws. 0 \<le> w"
  proof
    fix w assume "w \<in> set ws"
    then obtain c where "w = column_width rs c" by (auto simp: ws_def column_widths_of_def)
    moreover have "0 \<le> int (length c)" by simp
    ultimately show "0 \<le> w" using column_width_ge_header[of c rs] by linarith
  qed
  let ?os1 = "printSeparator cols ws cout"
  let ?os2 = "printHeader cols ws ?os1"
  let ?os3 = "printSeparator cols ws ?os2"
  have w0: "width cout = 0" "out cout = []" by (simp_all add: cout_def)
  have s1: "out ?os1 = separator_text ws" "width ?os1 = 0"
    using printSeparator_out[OF w0(1) len nonneg] w0(2) by simp_all
  have s2: "out ?os2 = out ?os1 @ header_text cols ws" "width ?os2 = 0"
    using printHeader_out[OF s1(2) len] by simp_all
  have s3: "out ?os3 = out ?os2 @ separator_text ws" "width ?os3 = 0"
    using printSeparator_out[OF s2(2) len nonneg] by simp_all
  have "out (printBenchmarkTable rs cout)
        = out (fold (\<lambda>r s. printSeparator cols ws (printRow cols ws r s)) rs ?os3)"
    by (simp add: printBenchmarkTable_def cols_def ws_def Let_def)
  also have "\<dots> = out ?os3 @ concat (map (\<lambda>r. row_text r ws (map (time_cell r) cols) @ separator_text ws) rs)"
    by (rule rows_out[OF len nonneg s3(2)])
  finally show ?thesis
    by (simp add: s1 s2 s3 cols_def[symmetric] ws_def[symmetric] Let_def)
qed

text \<open>
  Claim C8. The timing columns are the keys of the first result's map (none when there is
  no result), and the printed table consists of the separator, the header, the separator
  and, for every result in order, its row and a separator; in the row of a result the
  cell of each such key is \<open>N/A\<close> when the key is absent from that result's map and the
  value followed by \<open> ms\<close> otherwise.
\<close>

theorem printBenchmarkTable_cells:
  "columns_of rs = (case rs of [] \<Rightarrow> [] | first # rest \<Rightarrow> map fst (Result.times first))
   \<and> out (printBenchmarkTable rs cout) =
     (let cols = columns_of rs; ws = map (column_width rs) cols
      in separator_text ws @ header_text cols ws @ separator_text ws
         @ concat (map (\<lambda>r. row_text r ws
                                (map (\<lambda>key. case map_of (Result.times r) key of
                                               None \<Rightarrow> ''N/A''
                                             | Some v \<Rightarrow> to_string v @ '' ms'') cols)
                              @ separator_text ws) rs))"
proof -
  have "columns_of rs = (case rs of [] \<Rightarrow> [] | first # rest \<Rightarrow> map fst (Result.times first))"
    by (cases rs) (simp_all add: columns_of_def)
  moreover have "time_cell r = (\<lambda>key. case map_of (Result.times r) key of
                                               None \<Rightarrow> ''N/A''
                                             | Some v \<Rightarrow> to_string v @ '' ms'')" for r
    by (rule ext) (simp add: time_cell_def split: option.split)
  ultimately show ?thesis
    using printBenchmarkTable_out[of rs]
    by (simp add: column_widths_of_def Let_def)
qed

lemma column_width_fold_key:
  "r \<in> set rs \<Longrightarrow> map_of (Result.times r) col = Some v \<Longrightarrow>
   int (length (to_string v)) + 3
     \<le> fold (\<lambda>result max_len. case map_of (Result.times result) col of
                 Some v \<Rightarrow> max max_len (int (length (to_string v)) + 3) | None \<Rightarrow> max_len) rs a"
proof (induction rs arbitrary: a)
  case Nil
  then show ?case by simp
next
  case (Cons x xs)
  show ?case
  proof (cases "r = x")
    case True
    with Cons.prems(2)
    show ?thesis
      using column_width_fold_ge[of "max a (int (length (to_string v)) + 3)" col xs] by simp
  next
    case False
    with Cons.prems have "r \<in> set xs" by simp
    from Cons.IH[OF this Cons.prems(2)] show ?thesis by simp
  qed
qed

lemma column_width_fold_cases:
  "fold (\<lambda>result max_len. case map_of (Result.times result) col of
                 Some v \<Rightarrow> max max_len (int (length (to_string v)) + 3) | None \<Rightarrow> max_len) rs a = a
   \<or> (\<exists>r \<in> set rs. \<exists>v. map_of (Result.times r) col = Some v \<and>
        fold (\<lambda>result max_len. case map_of (Result.times result) col of
                 Some v \<Rightarrow> max max_len (int (length (to_string v)) + 3) | None \<Rightarrow> max_len) rs a
        = int (length (to_string v)) + 3)"
proof (induction rs arbitrary: a)
  case Nil
  show ?case by simp
next
  case (Cons x xs)
  show ?case
  proof (cases "map_of (Result.times x) col")
    case None
    with Cons.IH[of a] show ?thesis by auto
  next
    case (Some v)
    with Cons.IH[of "max a (int (length (to_string v)) + 3)"] show ?thesis
      by (auto simp: max_def split: if_splits)
  qed
qed

lemma time_cell_length:
  "int (length (time_cell r col)) =
     (case map_of (Result.times r) col of Some v \<Rightarrow> int (length (to_string v)) + 3 | None \<Rightarrow> 3)"
  by (simp add: time_cell_def split: option.split)

lemma columns_of_key:
  assumes "col \<in> set (columns_of rs)"
  shows "\<exists>r \<in> set rs. \<exists>v. map_of (Result.times r) col = Some v"
proof -
  from assms have ne: "rs \<noteq> []" and "col \<in> fst ` set (Result.times (rs ! 0))"
    by (auto simp: columns_of_def split: if_splits)
  then obtain v where "map_of (Result.times (rs ! 0)) col = Some v"
    by (metis map_of_eq_None_iff not_Some_eq)
  moreover from ne have "rs ! 0 \<in> set rs" by simp
  ultimately show ?thesis by blast
qed

lemma time_cell_le_column_width:
  assumes "col \<in> set (columns_of rs)" and "r \<in> set rs"
  shows "int (length (time_cell r col)) \<le> column_width rs col"
proof (cases "map_of (Result.times r) col")
  case (Some v)
  with column_width_fold_key[OF assms(2) Some, of "int (length col)"] show ?thesis
    by (simp add: time_cell_length column_width_def)
next
  case None
  from columns_of_key[OF assms(1)] obtain r' v where
    r': "r' \<in> set rs" "map_of (Result.times r') col = Some v" by blast
  from column_width_fold_key[OF r', of "int (length col)"]
  have "3 \<le> column_width rs col" by (simp add: column_width_def)
  with None show ?thesis by (simp add: time_cell_length)
qed

lemma column_width_attained:
  "column_width rs col = int (length col)
   \<or> column_width rs col \<in> (\<lambda>r. int (length (time_cell r col))) ` set rs"
proof (cases "column_width rs col = int (length col)")
  case True
  then show ?thesis by simp
next
  case False
  with column_width_fold_cases[of col rs "int (length col)"]
  obtain r v where r: "r \<in> set rs" "map_of (Result.times r) col = Some v"
    "column_width rs col = int (length (to_string v)) + 3"
    unfolding column_width_def by blast
  then have "column_width rs col = int (length (time_cell r col))"
    by (simp add: time_cell_length)
  with r(1) show ?thesis by blast
qed

text \<open>
  Claim C2, as the code has it. The width of every timing column is the maximum of its
  header's length and the lengths of the cells of that column in all result rows, so no
  timing cell is wider than its column. The widths of the four numeric columns do not
  depend on the rows: they are the lengths of the headers Readers, Writers, Reads and
  Updates.
\<close>

theorem timing_column_width:
  assumes "col \<in> set (columns_of rs)"
  shows "column_width rs col
           = Max (insert (int (length col)) ((\<lambda>r. int (length (time_cell r col))) ` set rs))
         \<and> list_all (\<lambda>r. int (length (time_cell r col)) \<le> column_width rs col) rs
         \<and> readers_width = int (length ''Readers'') \<and> writers_width = int (length ''Writers'')
         \<and> reads_width = int (length ''Reads'') \<and> updates_width = int (length ''Updates'')"
proof -
  let ?S = "insert (int (length col)) ((\<lambda>r. int (length (time_cell r col))) ` set rs)"
  have le: "\<And>x. x \<in> ?S \<Longrightarrow> x \<le> column_width rs col"
    using column_width_ge_header[of col rs] time_cell_le_column_width[OF assms] by auto
  have "column_width rs col \<in> ?S" using column_width_attained[of rs col] by auto
  then have "Max ?S = column_width rs col"
    by (intro Max_eqI) (auto intro: le)
  moreover have "list_all (\<lambda>r. int (length (time_cell r col)) \<le> column_width rs col) rs"
    using time_cell_le_column_width[OF assms] by (simp add: list_all_iff)
  ultimately show ?thesis by simp
qed

theorem timing_column_width_witness:
  "''Standard Mutex Time'' \<in> set (columns_of example_results)
   \<and> column_width example_results ''Standard Mutex Time'' = 19
   \<and> map (\<lambda>r. time_cell r ''Standard Mutex Time'') example_results = [''3012 ms'', ''2904 ms'']"
  using timing_column_width[of "''Standard Mutex Time''" example_results]
  by (simp add: columns_of_def example_results_def time_cell_def to_string_def decimal.simps)

lemma replicate_numeral_unfold: "replicate (numeral k) x = x # replicate (pred_numeral k) x"
  by (simp add: numeral_eq_Suc)

lemma to_string_wide: "to_string 12345678 = ''12345678''"
  by (simp add: to_string_def decimal.simps)

lemma to_string_one: "to_string 1 = ''1''"
  by (simp add: to_string_def decimal.simps)

text \<open>
  The claim fails for the numeric columns: with 12345678 readers the cell has eight
  characters and the column Readers seven; the cell is printed in full and the row is
  one character longer than the separators.
\<close>

theorem numeric_column_counterexample:
  "readers_width < int (length (to_string 12345678))
   \<and> readers_width \<noteq> max (int (length ''Readers'')) (int (length (to_string 12345678)))
   \<and> out (printBenchmarkTable
            [\<lparr>Result.times = [], numReaders = 12345678, numWriters = 1, numReads = 1, numUpdates = 1\<rparr>] cout)
     = ''+---------+---------+-------+---------+'' @ [CHR 0x0A] @
       ''| Readers | Writers | Reads | Updates |'' @ [CHR 0x0A] @
       ''+---------+---------+-------+---------+'' @ [CHR 0x0A] @
       ''| 12345678 |       1 |     1 |       1 |'' @ [CHR 0x0A] @
       ''+---------+---------+-------+---------+'' @ [CHR 0x0A]"
  by (simp add: printBenchmarkTable_out columns_of_def column_widths_of_def separator_text_def
      header_text_def row_text_def line_text_def padded_def to_string_wide to_string_one
      replicate_numeral_unfold)

section \<open>Properties of \<open>LockTester\<close>\<close>

lemma start_run_negative:
  "n \<le> 0 \<Longrightarrow> m \<le> 0 \<Longrightarrow> threads (start_run env w rd wr (LockTester n m a b)) = []"
  by (simp add: start_run_def spawn_def LockTester_def)

lemma join_all_returned: "all_returned tester s \<Longrightarrow> join eng tester schedule n s = Some s"
  by (subst join.simps) simp

text \<open>
  Claim C6, as the code has it. The constructor checks nothing: for any four counts,
  negative ones included, it returns a tester that holds exactly these counts, an empty
  map of times, the counter 0 and an empty text.
\<close>

theorem LockTester_accepts_any_counts:
  "numReaders (LockTester a b c d) = a \<and> numWriters (LockTester a b c d) = b
   \<and> numReads (LockTester a b c d) = c \<and> numUpdates (LockTester a b c d) = d
   \<and> times (LockTester a b c d) = [] \<and> counter (sharedData (LockTester a b c d)) = 0
   \<and> text_str (sharedData (LockTester a b c d)) = []"
  by (simp add: LockTester_def)

text \<open>
  The claim fails at the counts \<open>(-1, -2, -3, -4)\<close>: the constructor returns a tester with
  these counts, and the tester is usable: \<open>testSharedMutex\<close> on it returns, having spawned
  no thread, and records an elapsed time.
\<close>

theorem LockTester_negative_counterexample:
  "LockTester (-1) (-2) (-3) (-4) =
     \<lparr>times = [], numReaders = -1, numWriters = -2, numReads = -3, numUpdates = -4,
      sharedData = \<lparr>counter = 0, text_str = []\<rparr>\<rparr>
   \<and> testSharedMutex sample_env (LockTester (-1) (-2) (-3) (-4), world0) =
     Some (\<lparr>times = [(''Shared Mutex Time'', 2)], numReaders = -1, numWriters = -2,
            numReads = -3, numUpdates = -4, sharedData = \<lparr>counter = 0, text_str = []\<rparr>\<rparr>,
           \<lparr>now_calls = 2, runs = 1\<rparr>)"
proof -
  let ?t = "LockTester (-1) (-2) (-3) (-4)"
  let ?s = "start_run sample_env world0 ReaderSharedLock WriterSharedLock ?t"
  have "threads ?s = []" by (rule start_run_negative) simp_all
  then have "all_returned ?t ?s" by (simp add: all_returned_def)
  then have "join (engine sample_env) ?t (sched sample_env (runs world0)) 0 ?s = Some ?s"
    by (rule join_all_returned)
  moreover have "data ?s = sharedData ?t" by (simp add: start_run_def)
  ultimately show ?thesis
    by (simp add: testSharedMutex_def timed_run_def LockTester_def sample_env_def world0_def
        duration_ms_def)
qed

section \<open>Properties of a run: the invariant\<close>

text \<open>
  Every step of every thread preserves \<open>run_inv\<close>. The step that writes the counter is the
  one place where mutual exclusion is needed: the writer that has read the counter owns
  its mutex exclusively, so no other thread can be between its own read and write
  (\<open>writer_excludes\<close>), and the value read is still the value of the counter.
\<close>

lemma sum_list_map_update:
  fixes f :: "'a \<Rightarrow> nat"
  shows "k < length ts \<Longrightarrow> sum_list (map f (ts[k := t'])) + f (ts ! k) = sum_list (map f ts) + f t'"
proof (induction ts arbitrary: k)
  case Nil
  then show ?case by simp
next
  case (Cons a ts)
  then show ?case by (cases k) auto
qed

lemma sum_list_two:
  fixes xs :: "nat list"
  shows "j < length xs \<Longrightarrow> k < length xs \<Longrightarrow> j \<noteq> k \<Longrightarrow> xs ! j + xs ! k \<le> sum_list xs"
proof (induction xs arbitrary: j k)
  case Nil
  then show ?case by simp
next
  case (Cons a xs)
  show ?case
  proof (cases j)
    case 0
    with Cons.prems obtain k' where k: "k = Suc k'" "k' < length xs" by (cases k) auto
    then have "xs ! k' \<le> sum_list xs" by (simp add: elem_le_sum_list)
    with 0 k show ?thesis by simp
  next
    case (Suc j')
    show ?thesis
    proof (cases k)
      case 0
      from Suc Cons.prems have "xs ! j' \<le> sum_list xs" by (simp add: elem_le_sum_list)
      with 0 Suc show ?thesis by simp
    next
      case (Suc k')
      with \<open>j = Suc j'\<close> Cons.prems Cons.IH[of j' k'] show ?thesis by simp
    qed
  qed
qed

lemma total_update:
  "k < length (threads s) \<Longrightarrow>
   total_of f (s'\<lparr>threads := (threads s)[k := t']\<rparr>) + f (threads s ! k) = total_of f s + f t'"
  by (simp add: total_of_def sum_list_map_update)

lemma readerSharedLock_cases:
  assumes "readerSharedLock tester t s = Some (t', s')"
  shows "(pc t = Idle \<and> i t < numReads tester \<and> \<not> sm_exclusive s
          \<and> t' = t\<lparr>pc := Locked\<rparr> \<and> s' = s\<lparr>sm_shared := sm_shared s + 1\<rparr>)
       \<or> (pc t \<noteq> Idle \<and> t' = t\<lparr>i := i t + 1, pc := Idle\<rparr>
          \<and> s' = s\<lparr>sm_shared := sm_shared s - 1\<rparr>)"
  using assms by (auto simp: readerSharedLock_def split: pc.splits if_splits)

lemma readerStandardLock_cases:
  assumes "readerStandardLock tester t s = Some (t', s')"
  shows "(pc t = Idle \<and> i t < numReads tester \<and> \<not> standardMutex s
          \<and> t' = t\<lparr>pc := Locked\<rparr> \<and> s' = s\<lparr>standardMutex := True\<rparr>)
       \<or> (pc t \<noteq> Idle \<and> t' = t\<lparr>i := i t + 1, pc := Idle\<rparr>
          \<and> s' = s\<lparr>standardMutex := False\<rparr>)"
  using assms by (auto simp: readerStandardLock_def split: pc.splits if_splits)

lemma writerSharedLock_cases:
  assumes "writerSharedLock eng tester t s = Some (t', s')"
  shows "(pc t = Idle \<and> i t < numUpdates tester \<and> \<not> sm_exclusive s \<and> sm_shared s = 0
          \<and> t' = t\<lparr>pc := Locked\<rparr> \<and> s' = s\<lparr>sm_exclusive := True\<rparr>)
       \<or> (pc t = Locked \<and> t' = t\<lparr>pc := Loaded (counter (data s))\<rparr> \<and> s' = s)
       \<or> (\<exists>v. pc t = Loaded v
          \<and> t' = t\<lparr>i := i t + 1, pc := Idle,
                    generator := snd (generate eng 100000 (generator t))\<rparr>
          \<and> s' = s\<lparr>data := \<lparr>counter = v + 1,
                              text_str = fst (generate eng 100000 (generator t))\<rparr>,
                    sm_exclusive := False\<rparr>)"
  using assms by (auto simp: writerSharedLock_def split: pc.splits if_splits prod.splits)

lemma writerStandardLock_cases:
  assumes "writerStandardLock eng tester t s = Some (t', s')"
  shows "(pc t = Idle \<and> i t < numUpdates tester \<and> \<not> standardMutex s
          \<and> t' = t\<lparr>pc := Locked\<rparr> \<and> s' = s\<lparr>standardMutex := True\<rparr>)
       \<or> (pc t = Locked \<and> t' = t\<lparr>pc := Loaded (counter (data s))\<rparr> \<and> s' = s)
       \<or> (\<exists>v. pc t = Loaded v
          \<and> t' = t\<lparr>i := i t + 1, pc := Idle,
                    generator := snd (generate eng 100000 (generator t))\<rparr>
          \<and> s' = s\<lparr>data := \<lparr>counter = v + 1,
                              text_str = fst (generate eng 100000 (generator t))\<rparr>,
                    standardMutex := False\<rparr>)"
  using assms by (auto simp: writerStandardLock_def split: pc.splits if_splits prod.splits)


lemma total_ge: "k < length (threads s) \<Longrightarrow> f (threads s ! k) \<le> total_of f s"
  using elem_le_sum_list[of k "map f (threads s)"] by (simp add: total_of_def)

lemma total_two:
  "j < length (threads s) \<Longrightarrow> k < length (threads s) \<Longrightarrow> j \<noteq> k \<Longrightarrow>
   f (threads s ! j) + f (threads s ! k) \<le> total_of f s"
  using sum_list_two[of j "map f (threads s)" k] by (simp add: total_of_def)

lemma thread_ok_nth:
  "run_inv tester es c0 s \<Longrightarrow> j < length (threads s) \<Longrightarrow> thread_ok tester s (threads s ! j)"
  by (simp add: run_inv_def list_all_length)

lemma run_inv_update:
  assumes inv: "run_inv tester es c0 s" and k: "k < length (threads s)"
    and A: "entry t' = entry (threads s ! k)"
    and B: "sm_shared s' + holds_shared (threads s ! k) = sm_shared s + holds_shared t'"
    and C: "of_bool (sm_exclusive s') + holds_exclusive (threads s ! k)
            = of_bool (sm_exclusive s) + holds_exclusive t'"
    and D: "of_bool (standardMutex s') + holds_standard (threads s ! k)
            = of_bool (standardMutex s) + holds_standard t'"
    and E: "sm_exclusive s' \<longrightarrow> sm_shared s' = 0"
    and F: "thread_ok tester s' t'"
    and G: "counter (data s') + of_nat (updates_done (threads s ! k))
            = counter (data s) + of_nat (updates_done t')"
    and H: "data s' = data s \<or> (\<forall>j<length (threads s). j \<noteq> k \<longrightarrow> (\<forall>v. pc (threads s ! j) \<noteq> Loaded v))"
  shows "run_inv tester es c0 (s'\<lparr>threads := (threads s)[k := t']\<rparr>)"
proof -
  let ?ts = "threads s"
  let ?s = "s'\<lparr>threads := ?ts[k := t']\<rparr>"
  note tu = total_update[OF k, where s' = s' and t' = t']
  from inv have es: "map entry ?ts = es" "one_strategy es"
    and sh: "sm_shared s = total_of holds_shared s"
    and ex: "of_bool (sm_exclusive s) = total_of holds_exclusive s"
    and st: "of_bool (standardMutex s) = total_of holds_standard s"
    and cnt: "counter (data s) = c0 + of_nat (total_of updates_done s)"
    by (simp_all add: run_inv_def)
  have "map entry (?ts[k := t']) = (map entry ?ts)[k := entry (?ts ! k)]"
    by (simp add: map_update A)
  also have "\<dots> = map entry ?ts" using k by (simp add: list_update_same_conv)
  finally have 1: "map entry (threads ?s) = es" using es by simp
  have 2: "sm_shared ?s = total_of holds_shared ?s"
    using tu[where f = holds_shared] B sh by simp
  have 3: "of_bool (sm_exclusive ?s) = total_of holds_exclusive ?s"
    using tu[where f = holds_exclusive] C ex by simp
  have 4: "of_bool (standardMutex ?s) = total_of holds_standard ?s"
    using tu[where f = holds_standard] D st by simp
  have 5: "sm_exclusive ?s \<longrightarrow> sm_shared ?s = 0" using E by simp
  have 6: "list_all (thread_ok tester ?s) (threads ?s)"
    unfolding list_all_length
  proof (intro allI impI)
    fix j assume "j < length (threads ?s)"
    then have j: "j < length ?ts" by simp
    show "thread_ok tester ?s (threads ?s ! j)"
    proof (cases "j = k")
      case True
      with j F show ?thesis by (simp add: thread_ok_def)
    next
      case False
      from thread_ok_nth[OF inv j] H False j show ?thesis
        by (auto simp: thread_ok_def)
    qed
  qed
  have tw: "of_nat (total_of updates_done ?s) + (of_nat (updates_done (?ts ! k)) :: 32 word)
        = of_nat (total_of updates_done s) + of_nat (updates_done t')"
    using tu[where f = updates_done] by (metis of_nat_add)
  have "counter (data s') + of_nat (updates_done (?ts ! k))
        = (c0 + of_nat (total_of updates_done s)) + of_nat (updates_done t')"
    using G cnt by simp
  also have "\<dots> = c0 + (of_nat (total_of updates_done s) + of_nat (updates_done t'))"
    by (simp only: add.assoc)
  also have "\<dots> = c0 + (of_nat (total_of updates_done ?s) + of_nat (updates_done (?ts ! k)))"
    by (simp only: tw)
  also have "\<dots> = (c0 + of_nat (total_of updates_done ?s)) + of_nat (updates_done (?ts ! k))"
    by (simp only: add.assoc)
  finally have "counter (data s') = c0 + of_nat (total_of updates_done ?s)"
    by (rule add_right_imp_eq)
  then have 7: "counter (data ?s) = c0 + of_nat (total_of updates_done ?s)" by simp
  from 1 es(2) 2 3 4 5 6 7 show ?thesis
    unfolding run_inv_def by blast
qed


lemmas thread_defs = holds_shared_def holds_exclusive_def holds_standard_def updates_done_def
  is_writer_def thread_ok_def bound_def

lemma step_inv_readerShared:
  assumes inv: "run_inv tester es c0 s" and k: "k < length (threads s)"
    and e: "entry (threads s ! k) = ReaderSharedLock"
    and st: "readerSharedLock tester (threads s ! k) s = Some (t', s')"
  shows "run_inv tester es c0 (s'\<lparr>threads := (threads s)[k := t']\<rparr>)"
proof -
  let ?t = "threads s ! k"
  note ok = thread_ok_nth[OF inv k]
  from inv have sh: "sm_shared s = total_of holds_shared s"
    and ex: "sm_exclusive s \<longrightarrow> sm_shared s = 0" unfolding run_inv_def by blast+
  from readerSharedLock_cases[OF st] show ?thesis
  proof (elim disjE conjE)
    assume c: "pc ?t = Idle" "i ?t < numReads tester" "\<not> sm_exclusive s"
      "t' = ?t\<lparr>pc := Locked\<rparr>" "s' = s\<lparr>sm_shared := sm_shared s + 1\<rparr>"
    show ?thesis
      by (rule run_inv_update[OF inv k]) (use c e ok in \<open>simp_all add: thread_defs\<close>)
  next
    assume c: "pc ?t \<noteq> Idle" "t' = ?t\<lparr>i := i ?t + 1, pc := Idle\<rparr>"
      "s' = s\<lparr>sm_shared := sm_shared s - 1\<rparr>"
    from total_ge[OF k, of holds_shared] c(1) e sh have "1 \<le> sm_shared s"
      by (simp add: holds_shared_def)
    then show ?thesis
      by (intro run_inv_update[OF inv k]) (use c e ok ex in \<open>simp_all add: thread_defs\<close>)
  qed
qed


lemma entry_in_es:
  "run_inv tester es c0 s \<Longrightarrow> j < length (threads s) \<Longrightarrow> entry (threads s ! j) \<in> set es"
  unfolding run_inv_def by (metis length_map nth_map nth_mem)

lemma writer_excludes:
  assumes inv: "run_inv tester es c0 s" and k: "k < length (threads s)"
    and j: "j < length (threads s)" and jk: "j \<noteq> k"
    and w: "is_writer (threads s ! k)" and cs: "pc (threads s ! k) \<noteq> Idle"
  shows "pc (threads s ! j) = Idle"
proof (rule ccontr)
  assume nj: "pc (threads s ! j) \<noteq> Idle"
  let ?tk = "threads s ! k" and ?tj = "threads s ! j"
  from inv have one: "one_strategy es"
    and sh: "sm_shared s = total_of holds_shared s"
    and ex: "of_bool (sm_exclusive s) = total_of holds_exclusive s"
    and st: "of_bool (standardMutex s) = total_of holds_standard s"
    and es: "sm_exclusive s \<longrightarrow> sm_shared s = 0"
    unfolding run_inv_def by blast+
  note ek = entry_in_es[OF inv k] and ej = entry_in_es[OF inv j]
  from w consider "entry ?tk = WriterSharedLock" | "entry ?tk = WriterStandardLock"
    by (auto simp: is_writer_def)
  then show False
  proof cases
    case 1
    with ek ej one have ej': "entry ?tj = ReaderSharedLock \<or> entry ?tj = WriterSharedLock"
      by (auto simp: one_strategy_def)
    from 1 cs have hk: "holds_exclusive ?tk = 1" by (simp add: holds_exclusive_def)
    with total_ge[OF k, of holds_exclusive] ex have excl: "sm_exclusive s"
      by (cases "sm_exclusive s") simp_all
    from ej' show False
    proof
      assume "entry ?tj = ReaderSharedLock"
      with nj have "holds_shared ?tj = 1" by (simp add: holds_shared_def)
      with total_ge[OF j, of holds_shared] sh es excl show False by simp
    next
      assume "entry ?tj = WriterSharedLock"
      with nj have "holds_exclusive ?tj = 1" by (simp add: holds_exclusive_def)
      with total_two[OF j k jk, of holds_exclusive] hk ex show False
        by (cases "sm_exclusive s") simp_all
    qed
  next
    case 2
    with ek ej one have "entry ?tj = ReaderStandardLock \<or> entry ?tj = WriterStandardLock"
      by (auto simp: one_strategy_def)
    with nj have "holds_standard ?tj = 1" by (simp add: holds_standard_def)
    moreover from 2 cs have "holds_standard ?tk = 1" by (simp add: holds_standard_def)
    ultimately show False
      using total_two[OF j k jk, of holds_standard] st
      by (cases "standardMutex s") simp_all
  qed
qed

lemma step_inv_writerShared:
  assumes inv: "run_inv tester es c0 s" and k: "k < length (threads s)"
    and e: "entry (threads s ! k) = WriterSharedLock"
    and st: "writerSharedLock eng tester (threads s ! k) s = Some (t', s')"
  shows "run_inv tester es c0 (s'\<lparr>threads := (threads s)[k := t']\<rparr>)"
proof -
  let ?t = "threads s ! k"
  note ok = thread_ok_nth[OF inv k]
  from inv have ex: "of_bool (sm_exclusive s) = total_of holds_exclusive s"
    and xs: "sm_exclusive s \<longrightarrow> sm_shared s = 0"
    unfolding run_inv_def by blast+
  from e have w: "is_writer ?t" by (simp add: is_writer_def)
  from writerSharedLock_cases[OF st] show ?thesis
  proof (elim disjE conjE exE)
    assume c: "pc ?t = Idle" "i ?t < numUpdates tester" "\<not> sm_exclusive s" "sm_shared s = 0"
      "t' = ?t\<lparr>pc := Locked\<rparr>" "s' = s\<lparr>sm_exclusive := True\<rparr>"
    show ?thesis
      by (rule run_inv_update[OF inv k]) (use c e ok xs in \<open>simp_all add: thread_defs\<close>)
  next
    assume c: "pc ?t = Locked" "t' = ?t\<lparr>pc := Loaded (counter (data s))\<rparr>" "s' = s"
    show ?thesis
      by (rule run_inv_update[OF inv k]) (use c e ok xs in \<open>simp_all add: thread_defs\<close>)
  next
    fix v
    assume c: "pc ?t = Loaded v"
      "t' = ?t\<lparr>i := i ?t + 1, pc := Idle, generator := snd (generate eng 100000 (generator ?t))\<rparr>"
      "s' = s\<lparr>data := \<lparr>counter = v + 1, text_str = fst (generate eng 100000 (generator ?t))\<rparr>,
               sm_exclusive := False\<rparr>"
    from c(1) e have "holds_exclusive ?t = 1" by (simp add: holds_exclusive_def)
    with total_ge[OF k, of holds_exclusive] ex have excl: "sm_exclusive s"
      by (cases "sm_exclusive s") simp_all
    from c(1) have cs: "pc ?t \<noteq> Idle" by simp
    have others: "\<forall>j<length (threads s). j \<noteq> k \<longrightarrow> (\<forall>v. pc (threads s ! j) \<noteq> Loaded v)"
      using writer_excludes[OF inv k _ _ w cs] by auto
    from ok c(1) have v: "v = counter (data s)" "0 \<le> i ?t" by (simp_all add: thread_ok_def)
    show ?thesis
      by (rule run_inv_update[OF inv k])
         (use c e ok excl others v in \<open>simp_all add: thread_defs nat_add_distrib\<close>)
  qed
qed


lemma standard_held:
  assumes inv: "run_inv tester es c0 s" and k: "k < length (threads s)"
    and e: "entry (threads s ! k) = ReaderStandardLock \<or> entry (threads s ! k) = WriterStandardLock"
    and cs: "pc (threads s ! k) \<noteq> Idle"
  shows "standardMutex s"
proof -
  from inv have st: "of_bool (standardMutex s) = total_of holds_standard s"
    unfolding run_inv_def by blast
  from e cs have "holds_standard (threads s ! k) = 1" by (auto simp: holds_standard_def)
  with total_ge[OF k, of holds_standard] st show ?thesis
    by (cases "standardMutex s") simp_all
qed

lemma step_inv_readerStandard:
  assumes inv: "run_inv tester es c0 s" and k: "k < length (threads s)"
    and e: "entry (threads s ! k) = ReaderStandardLock"
    and st: "readerStandardLock tester (threads s ! k) s = Some (t', s')"
  shows "run_inv tester es c0 (s'\<lparr>threads := (threads s)[k := t']\<rparr>)"
proof -
  let ?t = "threads s ! k"
  note ok = thread_ok_nth[OF inv k]
  from inv have xs: "sm_exclusive s \<longrightarrow> sm_shared s = 0"
    unfolding run_inv_def by blast
  from readerStandardLock_cases[OF st] show ?thesis
  proof (elim disjE conjE)
    assume c: "pc ?t = Idle" "i ?t < numReads tester" "\<not> standardMutex s"
      "t' = ?t\<lparr>pc := Locked\<rparr>" "s' = s\<lparr>standardMutex := True\<rparr>"
    show ?thesis
      by (rule run_inv_update[OF inv k]) (use c e ok xs in \<open>simp_all add: thread_defs\<close>)
  next
    assume c: "pc ?t \<noteq> Idle" "t' = ?t\<lparr>i := i ?t + 1, pc := Idle\<rparr>"
      "s' = s\<lparr>standardMutex := False\<rparr>"
    from standard_held[OF inv k _ c(1)] e have held: "standardMutex s" by simp
    show ?thesis
      by (rule run_inv_update[OF inv k]) (use c e ok xs held in \<open>simp_all add: thread_defs\<close>)
  qed
qed

lemma step_inv_writerStandard:
  assumes inv: "run_inv tester es c0 s" and k: "k < length (threads s)"
    and e: "entry (threads s ! k) = WriterStandardLock"
    and st: "writerStandardLock eng tester (threads s ! k) s = Some (t', s')"
  shows "run_inv tester es c0 (s'\<lparr>threads := (threads s)[k := t']\<rparr>)"
proof -
  let ?t = "threads s ! k"
  note ok = thread_ok_nth[OF inv k]
  from inv have xs: "sm_exclusive s \<longrightarrow> sm_shared s = 0"
    unfolding run_inv_def by blast
  from e have w: "is_writer ?t" by (simp add: is_writer_def)
  from writerStandardLock_cases[OF st] show ?thesis
  proof (elim disjE conjE exE)
    assume c: "pc ?t = Idle" "i ?t < numUpdates tester" "\<not> standardMutex s"
      "t' = ?t\<lparr>pc := Locked\<rparr>" "s' = s\<lparr>standardMutex := True\<rparr>"
    show ?thesis
      by (rule run_inv_update[OF inv k]) (use c e ok xs in \<open>simp_all add: thread_defs\<close>)
  next
    assume c: "pc ?t = Locked" "t' = ?t\<lparr>pc := Loaded (counter (data s))\<rparr>" "s' = s"
    show ?thesis
      by (rule run_inv_update[OF inv k]) (use c e ok xs in \<open>simp_all add: thread_defs\<close>)
  next
    fix v
    assume c: "pc ?t = Loaded v"
      "t' = ?t\<lparr>i := i ?t + 1, pc := Idle, generator := snd (generate eng 100000 (generator ?t))\<rparr>"
      "s' = s\<lparr>data := \<lparr>counter = v + 1, text_str = fst (generate eng 100000 (generator ?t))\<rparr>,
               standardMutex := False\<rparr>"
    from c(1) have cs: "pc ?t \<noteq> Idle" by simp
    from standard_held[OF inv k _ cs] e have held: "standardMutex s" by simp
    have others: "\<forall>j<length (threads s). j \<noteq> k \<longrightarrow> (\<forall>v. pc (threads s ! j) \<noteq> Loaded v)"
      using writer_excludes[OF inv k _ _ w cs] by auto
    from ok c(1) have v: "v = counter (data s)" "0 \<le> i ?t" by (simp_all add: thread_ok_def)
    show ?thesis
      by (rule run_inv_update[OF inv k])
         (use c e ok xs held others v in \<open>simp_all add: thread_defs nat_add_distrib\<close>)
  qed
qed

lemma thread_step_inv:
  assumes inv: "run_inv tester es c0 s" and k: "k < length (threads s)"
    and st: "thread_step eng tester (threads s ! k) s = Some (t', s')"
  shows "run_inv tester es c0 (s'\<lparr>threads := (threads s)[k := t']\<rparr>)"
proof (cases "entry (threads s ! k)")
  case ReaderSharedLock
  with st show ?thesis
    by (intro step_inv_readerShared[OF inv k]) (simp_all add: thread_step_def)
next
  case WriterSharedLock
  with st show ?thesis
    by (intro step_inv_writerShared[OF inv k, of eng]) (simp_all add: thread_step_def)
next
  case ReaderStandardLock
  with st show ?thesis
    by (intro step_inv_readerStandard[OF inv k]) (simp_all add: thread_step_def)
next
  case WriterStandardLock
  with st show ?thesis
    by (intro step_inv_writerStandard[OF inv k, of eng]) (simp_all add: thread_step_def)
qed

lemma step_inv: "run_inv tester es c0 s \<Longrightarrow> run_inv tester es c0 (step eng tester k s)"
  by (auto simp: step_def thread_step_inv split: option.split)

lemma run_steps_inv:
  "run_inv tester es c0 s \<Longrightarrow> run_inv tester es c0 (run_steps eng tester schedule n s)"
  by (induction n) (simp_all add: step_inv)

section \<open>Properties of a run: progress and measure\<close>

text \<open>
  A run starts in a state that satisfies the invariant. In a state that satisfies it,
  some thread can move unless all have returned (no deadlock), and every step that
  changes the state lowers the number of steps remaining.
\<close>

lemma total_of_zero: "(\<forall>t \<in> set (threads s). f t = 0) \<Longrightarrow> total_of f s = 0"
  by (simp add: total_of_def)

lemma spawn_fields:
  "t \<in> set (spawn env w f first n) \<Longrightarrow> entry t = f \<and> i t = 0 \<and> pc t = Idle"
  by (auto simp: spawn_def)

lemma map_entry_spawn: "map entry (spawn env w f first n) = replicate (nat n) f"
  by (simp add: spawn_def map_replicate_const comp_def)

lemma start_run_threads:
  "t \<in> set (threads (start_run env w rd wr tester)) \<Longrightarrow>
     (entry t = rd \<or> entry t = wr) \<and> i t = 0 \<and> pc t = Idle"
  by (auto simp: start_run_def dest: spawn_fields)

lemma start_run_inv:
  assumes "strategy rd wr"
  shows "run_inv tester (replicate (nat (numReaders tester)) rd @ replicate (nat (numWriters tester)) wr)
           (counter (sharedData tester)) (start_run env w rd wr tester)"
proof -
  let ?s = "start_run env w rd wr tester"
  note th = start_run_threads[of _ env w rd wr tester]
  have "total_of holds_shared ?s = 0" "total_of holds_exclusive ?s = 0"
    "total_of holds_standard ?s = 0" "total_of updates_done ?s = 0"
    by (rule total_of_zero, use th in \<open>auto simp: thread_defs\<close>)+
  moreover have "list_all (thread_ok tester ?s) (threads ?s)"
    unfolding list_all_iff using th by (auto simp: thread_ok_def)
  moreover have "map entry (threads ?s)
      = replicate (nat (numReaders tester)) rd @ replicate (nat (numWriters tester)) wr"
    by (simp add: start_run_def map_entry_spawn)
  moreover have "one_strategy (replicate (nat (numReaders tester)) rd @ replicate (nat (numWriters tester)) wr)"
    using assms by (auto simp: one_strategy_def strategy_def)
  moreover have "sm_shared ?s = 0" "\<not> sm_exclusive ?s" "\<not> standardMutex ?s"
    "data ?s = sharedData tester"
    by (simp_all add: start_run_def)
  ultimately show ?thesis by (simp add: run_inv_def)
qed

lemma thread_step_remaining:
  assumes inv: "run_inv tester es c0 s" and k: "k < length (threads s)"
    and st: "thread_step eng tester (threads s ! k) s = Some (t', s')"
  shows "remaining tester t' < remaining tester (threads s ! k)"
proof -
  let ?t = "threads s ! k"
  from thread_ok_nth[OF inv k] have ok: "pc ?t \<noteq> Idle \<longrightarrow> i ?t < bound tester ?t"
    by (simp add: thread_ok_def)
  show ?thesis
  proof (cases "entry ?t")
    case ReaderSharedLock
    with st have "readerSharedLock tester ?t s = Some (t', s')" by (simp add: thread_step_def)
    from readerSharedLock_cases[OF this] ok ReaderSharedLock show ?thesis
      by (auto simp: remaining_def bound_def split: pc.splits)
  next
    case WriterSharedLock
    with st have "writerSharedLock eng tester ?t s = Some (t', s')" by (simp add: thread_step_def)
    from writerSharedLock_cases[OF this] ok WriterSharedLock show ?thesis
      by (auto simp: remaining_def bound_def split: pc.splits)
  next
    case ReaderStandardLock
    with st have "readerStandardLock tester ?t s = Some (t', s')" by (simp add: thread_step_def)
    from readerStandardLock_cases[OF this] ok ReaderStandardLock show ?thesis
      by (auto simp: remaining_def bound_def split: pc.splits)
  next
    case WriterStandardLock
    with st have "writerStandardLock eng tester ?t s = Some (t', s')" by (simp add: thread_step_def)
    from writerStandardLock_cases[OF this] ok WriterStandardLock show ?thesis
      by (auto simp: remaining_def bound_def split: pc.splits)
  qed
qed

lemma step_enabled_measure:
  assumes inv: "run_inv tester es c0 s" and en: "enabled eng tester k s"
  shows "total_of (remaining tester) (step eng tester k s) < total_of (remaining tester) s"
proof -
  from en obtain t' s' where k: "k < length (threads s)"
    and st: "thread_step eng tester (threads s ! k) s = Some (t', s')"
    by (auto simp: enabled_def)
  from total_update[OF k, where f = "remaining tester" and s' = s' and t' = t']
    thread_step_remaining[OF inv k st]
  have "total_of (remaining tester) (s'\<lparr>threads := (threads s)[k := t']\<rparr>)
        < total_of (remaining tester) s" by linarith
  with k st show ?thesis by (simp add: step_def)
qed

lemma step_not_enabled: "\<not> enabled eng tester k s \<Longrightarrow> step eng tester k s = s"
  by (cases "thread_step eng tester (threads s ! k) s") (auto simp: step_def enabled_def)

lemma step_measure:
  assumes inv: "run_inv tester es c0 s"
  shows "step eng tester k s = s
         \<or> total_of (remaining tester) (step eng tester k s) < total_of (remaining tester) s"
  using step_enabled_measure[OF inv] step_not_enabled by blast

lemma length_threads_step [simp]: "length (threads (step eng tester k s)) = length (threads s)"
  by (cases "thread_step eng tester (threads s ! k) s") (auto simp: step_def)


lemma length_threads_run_steps [simp]:
  "length (threads (run_steps eng tester schedule n s)) = length (threads s)"
  by (induction n) simp_all

lemma not_idle_enabled:
  assumes "k < length (threads s)" and "pc (threads s ! k) \<noteq> Idle"
  shows "enabled eng tester k s"
  using assms
  by (cases "entry (threads s ! k)"; cases "pc (threads s ! k)")
     (auto simp: enabled_def thread_step_def readerSharedLock_def writerSharedLock_def
        readerStandardLock_def writerStandardLock_def split: prod.splits)

lemma idle_enabled:
  assumes "k < length (threads s)" and "pc (threads s ! k) = Idle"
    and "i (threads s ! k) < bound tester (threads s ! k)"
    and "sm_shared s = 0" and "\<not> sm_exclusive s" and "\<not> standardMutex s"
  shows "enabled eng tester k s"
  using assms
  by (cases "entry (threads s ! k)")
     (auto simp: enabled_def thread_step_def readerSharedLock_def writerSharedLock_def
        readerStandardLock_def writerStandardLock_def bound_def)

lemma returned_iff: "returned tester t = (pc t = Idle \<and> \<not> i t < bound tester t)"
  by (simp add: returned_def bound_def)

lemma progress:
  assumes inv: "run_inv tester es c0 s" and nr: "\<not> all_returned tester s"
  shows "\<exists>k. enabled eng tester k s"
proof (cases "\<exists>k<length (threads s). pc (threads s ! k) \<noteq> Idle")
  case True
  then show ?thesis using not_idle_enabled by blast
next
  case False
  then have idle: "\<forall>t \<in> set (threads s). pc t = Idle"
    by (auto simp: in_set_conv_nth)
  from inv have sh: "sm_shared s = total_of holds_shared s"
    and ex: "of_bool (sm_exclusive s) = total_of holds_exclusive s"
    and st: "of_bool (standardMutex s) = total_of holds_standard s"
    unfolding run_inv_def by blast+
  have "total_of holds_shared s = 0" "total_of holds_exclusive s = 0" "total_of holds_standard s = 0"
    by (rule total_of_zero, use idle in \<open>simp add: thread_defs\<close>)+
  with sh ex st have free: "sm_shared s = 0" "\<not> sm_exclusive s" "\<not> standardMutex s"
    by (simp_all split: if_splits)
  from nr obtain k where k: "k < length (threads s)" "\<not> returned tester (threads s ! k)"
    by (auto simp: all_returned_def list_all_length)
  with idle have "i (threads s ! k) < bound tester (threads s ! k)" "pc (threads s ! k) = Idle"
    by (auto simp: returned_iff)
  with k(1) free show ?thesis using idle_enabled by blast
qed

lemma all_returned_step:
  assumes "all_returned tester s" shows "step eng tester k s = s"
proof (rule step_not_enabled)
  show "\<not> enabled eng tester k s"
  proof
    assume en: "enabled eng tester k s"
    then have k: "k < length (threads s)" by (simp add: enabled_def)
    with assms have "returned tester (threads s ! k)"
      by (simp add: all_returned_def list_all_length)
    with en show False
      by (cases "entry (threads s ! k)")
         (auto simp: enabled_def returned_def thread_step_def readerSharedLock_def
            writerSharedLock_def readerStandardLock_def writerStandardLock_def)
  qed
qed

section \<open>Properties of a run: termination under a fair scheduler\<close>

text \<open>
  Under a fair schedule a thread that can move is eventually scheduled, unless another
  step has changed the state before; either way the measure drops, so after finitely
  many steps all threads have returned and \<open>join\<close> returns that state.
\<close>

lemma wait_for_turn:
  assumes inv0: "run_inv tester es c0 s0"
  shows "enabled eng tester k (run_steps eng tester schedule n s0) \<Longrightarrow> schedule (n + d) = k \<Longrightarrow>
         \<exists>m>n. total_of (remaining tester) (run_steps eng tester schedule m s0)
                 < total_of (remaining tester) (run_steps eng tester schedule n s0)"
proof (induction d arbitrary: n)
  case 0
  then have "schedule n = k" by simp
  with step_enabled_measure[OF run_steps_inv[OF inv0] "0.prems"(1)]
  have "total_of (remaining tester) (run_steps eng tester schedule (Suc n) s0)
        < total_of (remaining tester) (run_steps eng tester schedule n s0)" by simp
  then show ?case by blast
next
  case (Suc d)
  let ?rs = "\<lambda>m. run_steps eng tester schedule m s0"
  note inv_n = run_steps_inv[OF inv0, where eng = eng and schedule = schedule and n = n]
  from step_measure[OF inv_n, where eng = eng and k = "schedule n"]
  consider "?rs (Suc n) = ?rs n"
    | "total_of (remaining tester) (?rs (Suc n)) < total_of (remaining tester) (?rs n)"
    by auto
  then show ?case
  proof cases
    case 1
    with Suc.prems have "enabled eng tester k (?rs (Suc n))" "schedule (Suc n + d) = k" by simp_all
    from Suc.IH[OF this] obtain m where "m > Suc n"
      "total_of (remaining tester) (?rs m) < total_of (remaining tester) (?rs (Suc n))" by blast
    with 1 show ?thesis by (metis Suc_lessD)
  next
    case 2
    then show ?thesis by blast
  qed
qed

lemma fair_decrease:
  assumes inv0: "run_inv tester es c0 s0" and fair: "fair (length (threads s0)) schedule"
    and nr: "\<not> all_returned tester (run_steps eng tester schedule n s0)"
  shows "\<exists>m>n. total_of (remaining tester) (run_steps eng tester schedule m s0)
                 < total_of (remaining tester) (run_steps eng tester schedule n s0)"
proof -
  from progress[OF run_steps_inv[OF inv0] nr] obtain k where
    en: "enabled eng tester k (run_steps eng tester schedule n s0)" by blast
  then have "k < length (threads s0)" by (simp add: enabled_def)
  with fair obtain m' where "m' \<ge> n" "schedule m' = k" unfolding fair_def by blast
  then have "schedule (n + (m' - n)) = k" by simp
  from wait_for_turn[OF inv0 en this] show ?thesis .
qed

lemma fair_terminates:
  assumes inv0: "run_inv tester es c0 s0" and fair: "fair (length (threads s0)) schedule"
  shows "\<exists>N. all_returned tester (run_steps eng tester schedule N s0)"
proof -
  have "\<exists>N. all_returned tester (run_steps eng tester schedule N s0)"
    if "total_of (remaining tester) (run_steps eng tester schedule n s0) = x" for n x
    using that
  proof (induction x arbitrary: n rule: less_induct)
    case (less x)
    show ?case
    proof (cases "all_returned tester (run_steps eng tester schedule n s0)")
      case True
      then show ?thesis by blast
    next
      case False
      from fair_decrease[OF inv0 fair False] less.prems obtain m where
        "total_of (remaining tester) (run_steps eng tester schedule m s0) < x" by blast
      from less.IH[OF this refl] show ?thesis .
    qed
  qed
  then show ?thesis by blast
qed

lemma all_returned_run_steps:
  "all_returned tester (run_steps eng tester schedule n s0) \<Longrightarrow>
   run_steps eng tester schedule (n + d) s0 = run_steps eng tester schedule n s0"
  by (induction d) (simp_all add: all_returned_step)

lemma join_run_steps:
  "all_returned tester (run_steps eng tester schedule (n + d) s0) \<Longrightarrow>
   join eng tester schedule n (run_steps eng tester schedule n s0)
     = Some (run_steps eng tester schedule (n + d) s0)"
proof (induction d arbitrary: n)
  case 0
  then show ?case by (simp add: join_all_returned)
next
  case (Suc d)
  show ?case
  proof (cases "all_returned tester (run_steps eng tester schedule n s0)")
    case True
    with all_returned_run_steps[OF True, of "Suc d"] show ?thesis
      by (simp add: join_all_returned)
  next
    case False
    from Suc.prems have "all_returned tester (run_steps eng tester schedule (Suc n + d) s0)"
      by simp
    from Suc.IH[OF this] False show ?thesis
      by (subst join.simps) simp
  qed
qed

lemma fair_join:
  assumes inv0: "run_inv tester es c0 s0" and fair: "fair (length (threads s0)) schedule"
  shows "\<exists>N. join eng tester schedule 0 s0 = Some (run_steps eng tester schedule N s0)
             \<and> all_returned tester (run_steps eng tester schedule N s0)"
proof -
  from fair_terminates[OF inv0 fair] obtain N where
    N: "all_returned tester (run_steps eng tester schedule N s0)" by blast
  with join_run_steps[where tester = tester and eng = eng and schedule = schedule and n = 0 and d = N and ?s0.0 = s0] show ?thesis by auto
qed

section \<open>Properties of a run: the result of a timed run\<close>

lemma returned_updates_done:
  assumes ok: "thread_ok tester s t" and r: "returned tester t"
  shows "updates_done t = (if is_writer t then nat (numUpdates tester) else 0)"
proof (cases "is_writer t")
  case False
  then show ?thesis by (simp add: updates_done_def)
next
  case True
  then have b: "bound tester t = numUpdates tester" by (auto simp: is_writer_def bound_def)
  from ok have "0 \<le> i t" "i t \<le> max 0 (bound tester t)" by (simp_all add: thread_ok_def)
  moreover from r have "\<not> i t < bound tester t" by (simp add: returned_iff)
  ultimately have "nat (i t) = nat (numUpdates tester)" using b by auto
  with True show ?thesis by (simp add: updates_done_def)
qed

lemma final_updates:
  assumes inv: "run_inv tester (replicate nr rd @ replicate nw wr) c0 s"
    and str: "strategy rd wr" and ar: "all_returned tester s"
  shows "total_of updates_done s = nw * nat (numUpdates tester)"
proof -
  let ?g = "\<lambda>e. if e = WriterSharedLock \<or> e = WriterStandardLock then nat (numUpdates tester) else 0"
  from inv have es: "map entry (threads s) = replicate nr rd @ replicate nw wr"
    and ok: "list_all (thread_ok tester s) (threads s)"
    unfolding run_inv_def by blast+
  have "map updates_done (threads s) = map (\<lambda>t. ?g (entry t)) (threads s)"
  proof (rule map_cong[OF refl])
    fix t assume t: "t \<in> set (threads s)"
    with ok ar have "thread_ok tester s t" "returned tester t"
      by (simp_all add: all_returned_def list_all_iff)
    from returned_updates_done[OF this] show "updates_done t = ?g (entry t)"
      by (simp add: is_writer_def)
  qed
  also have "\<dots> = map ?g (map entry (threads s))" by (simp add: comp_def)
  finally have m: "map updates_done (threads s) = map ?g (map entry (threads s))" .
  have "total_of updates_done s = sum_list (map ?g (map entry (threads s)))"
    unfolding total_of_def by (simp only: m)
  also have "\<dots> = nw * nat (numUpdates tester)"
    unfolding es using str by (auto simp: strategy_def sum_list_replicate)
  finally show ?thesis .
qed

lemma length_start_run:
  "length (threads (start_run env w rd wr tester)) = nat (numReaders tester) + nat (numWriters tester)"
  by (simp add: start_run_def spawn_def)

lemma timed_run_returns:
  assumes str: "strategy rd wr"
    and fair: "fair (nat (numReaders tester) + nat (numWriters tester)) (sched env (runs w))"
  shows "\<exists>N. let s = run_steps (engine env) tester (sched env (runs w)) N
                       (start_run env w rd wr tester)
             in timed_run env rd wr key (tester, w)
                  = Some (tester\<lparr>times := map_assign key
                                    (duration_ms (clock env (now_calls w + 1) - clock env (now_calls w)))
                                    (times tester),
                                 sharedData := data s\<rparr>,
                          w\<lparr>now_calls := now_calls w + 2, runs := runs w + 1\<rparr>)
                \<and> all_returned tester s
                \<and> counter (data s) = counter (sharedData tester)
                      + of_nat (nat (numWriters tester) * nat (numUpdates tester))"
proof -
  let ?s0 = "start_run env w rd wr tester"
  note inv0 = start_run_inv[OF str, of tester env w]
  from fair have fair': "fair (length (threads ?s0)) (sched env (runs w))"
    by (simp add: length_start_run)
  from fair_join[OF inv0 fair', of "engine env"] obtain N where
    j: "join (engine env) tester (sched env (runs w)) 0 ?s0
          = Some (run_steps (engine env) tester (sched env (runs w)) N ?s0)"
    and ar: "all_returned tester (run_steps (engine env) tester (sched env (runs w)) N ?s0)"
    by blast
  let ?s = "run_steps (engine env) tester (sched env (runs w)) N ?s0"
  note inv = run_steps_inv[OF inv0, of "engine env" "sched env (runs w)" N]
  from inv have "counter (data ?s) = counter (sharedData tester) + of_nat (total_of updates_done ?s)"
    unfolding run_inv_def by blast
  with final_updates[OF inv str ar]
  have c: "counter (data ?s) = counter (sharedData tester)
            + of_nat (nat (numWriters tester) * nat (numUpdates tester))" by simp
  have "timed_run env rd wr key (tester, w)
        = Some (tester\<lparr>times := map_assign key
                                    (duration_ms (clock env (now_calls w + 1) - clock env (now_calls w)))
                                    (times tester),
                                 sharedData := data ?s\<rparr>,
                          w\<lparr>now_calls := now_calls w + 2, runs := runs w + 1\<rparr>)"
    by (simp add: timed_run_def j Let_def)
  with ar c show ?thesis unfolding Let_def by blast
qed

section \<open>The two test runs of a tester\<close>

lemma map_of_map_assign: "map_of (map_assign k v m) k = Some v"
  by (induction m) auto

lemma duration_ms_nonneg: "0 \<le> d \<Longrightarrow> 0 \<le> duration_ms d"
  by (simp add: duration_ms_def sgn_if pos_imp_zdiv_nonneg_iff)

lemma fair_mod: "K \<le> M \<Longrightarrow> fair K (\<lambda>n. n mod M)"
proof (unfold fair_def, intro allI impI)
  fix k m assume "K \<le> M" "k < K"
  then have "k < M" by simp
  then have "(m * M + k) mod M = k" by simp
  moreover have "m \<le> m * M + k" using \<open>k < M\<close> by (cases M) simp_all
  ultimately show "\<exists>m'\<ge>m. m' mod M = k" by blast
qed

lemma strategy_shared: "strategy ReaderSharedLock WriterSharedLock"
  by (simp add: strategy_def)

lemma strategy_standard: "strategy ReaderStandardLock WriterStandardLock"
  by (simp add: strategy_def)

lemma sint_counter:
  assumes "0 \<le> x" "x < 2 ^ 31"
  shows "sint (of_nat (nat x) :: 32 word) = x"
proof -
  have "sint (word_of_int x :: 32 word) = x"
    using assms by (simp add: sint_sbintrunc' signed_take_bit_int_eq_self)
  moreover have "(of_nat (nat x) :: 32 word) = word_of_int x"
    using assms by simp
  ultimately show ?thesis by simp
qed

lemma duration_ms_nonneg_iff: "0 \<le> duration_ms d \<longleftrightarrow> - 1000000 < d"
proof (cases "0 \<le> d")
  case True
  then have "0 \<le> duration_ms d" by (rule duration_ms_nonneg)
  with True show ?thesis by simp
next
  case False
  then have d: "d < 0" by simp
  then have "duration_ms d = - (- d div 1000000)" by (simp add: duration_ms_def)
  moreover have "0 \<le> - d div 1000000" using d by (simp add: pos_imp_zdiv_nonneg_iff)
  moreover have "- d div 1000000 = 0 \<longleftrightarrow> - d < 1000000"
    using d by (simp add: div_pos_pos_trivial zdiv_eq_0_iff)
  ultimately show ?thesis by auto
qed

text \<open>
  Claim C4, as the code has it. For every configuration (any four counts, zero counts
  included), under a scheduler that lets every thread move again and again,
  \<open>testSharedMutex\<close> and \<open>testStandardMutex\<close> return, and each records under its key
  the difference of its two clock readings in whole milliseconds, truncated towards
  zero. That value is not negative exactly when the second reading is less than a
  millisecond before the first, in particular whenever the clock has not gone backwards
  between the two readings.
\<close>

theorem test_runs_return:
  assumes fair: "fair (nat (numReaders tester) + nat (numWriters tester)) (sched env (runs w))"
  shows "(\<exists>tester'. testSharedMutex env (tester, w)
              = Some (tester', w\<lparr>now_calls := now_calls w + 2, runs := runs w + 1\<rparr>)
            \<and> map_of (times tester') ''Shared Mutex Time''
                = Some (duration_ms (clock env (now_calls w + 1) - clock env (now_calls w))))
       \<and> (\<exists>tester'. testStandardMutex env (tester, w)
              = Some (tester', w\<lparr>now_calls := now_calls w + 2, runs := runs w + 1\<rparr>)
            \<and> map_of (times tester') ''Standard Mutex Time''
                = Some (duration_ms (clock env (now_calls w + 1) - clock env (now_calls w))))
       \<and> (0 \<le> duration_ms (clock env (now_calls w + 1) - clock env (now_calls w))
            \<longleftrightarrow> clock env (now_calls w) - 1000000 < clock env (now_calls w + 1))
       \<and> (clock env (now_calls w) \<le> clock env (now_calls w + 1)
            \<longrightarrow> 0 \<le> duration_ms (clock env (now_calls w + 1) - clock env (now_calls w)))"
proof -
  let ?v = "duration_ms (clock env (now_calls w + 1) - clock env (now_calls w))"
  from timed_run_returns[OF strategy_shared fair, of "''Shared Mutex Time''"]
  have "\<exists>tester'. testSharedMutex env (tester, w)
              = Some (tester', w\<lparr>now_calls := now_calls w + 2, runs := runs w + 1\<rparr>)
            \<and> map_of (times tester') ''Shared Mutex Time'' = Some ?v"
    unfolding testSharedMutex_def Let_def by (auto simp: map_of_map_assign)
  moreover
  from timed_run_returns[OF strategy_standard fair, of "''Standard Mutex Time''"]
  have "\<exists>tester'. testStandardMutex env (tester, w)
              = Some (tester', w\<lparr>now_calls := now_calls w + 2, runs := runs w + 1\<rparr>)
            \<and> map_of (times tester') ''Standard Mutex Time'' = Some ?v"
    unfolding testStandardMutex_def Let_def by (auto simp: map_of_map_assign)
  moreover have "0 \<le> ?v \<longleftrightarrow> clock env (now_calls w) - 1000000 < clock env (now_calls w + 1)"
    unfolding duration_ms_nonneg_iff by linarith
  moreover have "clock env (now_calls w) \<le> clock env (now_calls w + 1) \<longrightarrow> 0 \<le> ?v"
    by (simp add: duration_ms_nonneg)
  ultimately show ?thesis by blast
qed

theorem test_runs_return_witness:
  "fair (nat (numReaders (LockTester 0 0 0 0)) + nat (numWriters (LockTester 0 0 0 0)))
        (sched sample_env (runs world0))
   \<and> fair (nat (numReaders (LockTester 1 2 2 3)) + nat (numWriters (LockTester 1 2 2 3)))
        (sched sample_env (runs world0))
   \<and> (\<exists>tester'. testSharedMutex sample_env (LockTester 0 0 0 0, world0)
              = Some (tester', \<lparr>now_calls = 2, runs = 1\<rparr>)
            \<and> map_of (times tester') ''Shared Mutex Time'' = Some 2)
   \<and> (\<exists>tester'. testStandardMutex sample_env (LockTester 1 2 2 3, world0)
              = Some (tester', \<lparr>now_calls = 2, runs = 1\<rparr>)
            \<and> map_of (times tester') ''Standard Mutex Time'' = Some 2)"
proof -
  have f0: "fair (nat (numReaders (LockTester 0 0 0 0)) + nat (numWriters (LockTester 0 0 0 0)))
        (sched sample_env (runs world0))"
    by (simp add: LockTester_def sample_env_def fair_mod)
  have f3: "fair (nat (numReaders (LockTester 1 2 2 3)) + nat (numWriters (LockTester 1 2 2 3)))
        (sched sample_env (runs world0))"
    by (simp add: LockTester_def sample_env_def fair_mod)
  have w: "world0\<lparr>now_calls := now_calls world0 + 2, runs := runs world0 + 1\<rparr>
           = \<lparr>now_calls = 2, runs = 1\<rparr>"
    by (simp add: world0_def)
  have v: "duration_ms (clock sample_env (now_calls world0 + 1) - clock sample_env (now_calls world0))
           = 2"
    by (simp add: sample_env_def world0_def duration_ms_def)
  from test_runs_return[OF f0] test_runs_return[OF f3] f0 f3 show ?thesis
    unfolding w v by blast
qed

text \<open>
  The claim fails when the clock is set back during a run: with the readings 0 and
  -1.5 ms both functions return and record -1, for a configuration with threads as for
  the configuration of zeros.
\<close>

theorem clock_backwards_counterexample:
  "elapsed_after ''Shared Mutex Time''
     (testSharedMutex backwards_env (LockTester 1 2 2 3, world0)) = Some (- 1)
   \<and> elapsed_after ''Standard Mutex Time''
     (testStandardMutex backwards_env (LockTester 0 0 0 0, world0)) = Some (- 1)"
proof -
  have f: "fair (nat (numReaders t) + nat (numWriters t)) (sched backwards_env (runs world0))"
    if "nat (numReaders t) + nat (numWriters t) \<le> 3" for t
    using that by (simp add: backwards_env_def sample_env_def fair_mod)
  have v: "duration_ms (clock backwards_env (now_calls world0 + 1)
                        - clock backwards_env (now_calls world0)) = - 1"
    by (simp add: backwards_env_def world0_def duration_ms_def)
  have f3: "nat (numReaders (LockTester 1 2 2 3)) + nat (numWriters (LockTester 1 2 2 3)) \<le> 3"
    and f0: "nat (numReaders (LockTester 0 0 0 0)) + nat (numWriters (LockTester 0 0 0 0)) \<le> 3"
    by (simp_all add: LockTester_def)
  from timed_run_returns[OF strategy_shared f[OF f3], of "''Shared Mutex Time''"]
  obtain t1 w1 where "testSharedMutex backwards_env (LockTester 1 2 2 3, world0) = Some (t1, w1)"
    "map_of (times t1) ''Shared Mutex Time'' = Some (- 1)"
    unfolding testSharedMutex_def Let_def v by (auto simp: map_of_map_assign)
  moreover
  from timed_run_returns[OF strategy_standard f[OF f0], of "''Standard Mutex Time''"]
  obtain t2 w2 where "testStandardMutex backwards_env (LockTester 0 0 0 0, world0) = Some (t2, w2)"
    "map_of (times t2) ''Standard Mutex Time'' = Some (- 1)"
    unfolding testStandardMutex_def Let_def v by (auto simp: map_of_map_assign)
  ultimately show ?thesis by (simp add: elapsed_after_def)
qed

lemma trial_returns:
  assumes f1: "fair (nat (numReaders tester) + nat (numWriters tester)) (sched env (runs w))"
    and f2: "fair (nat (numReaders tester) + nat (numWriters tester)) (sched env (runs w + 1))"
  shows "\<exists>d1 d2.
           testSharedMutex env (tester, w)
             = Some (tester\<lparr>times := map_assign ''Shared Mutex Time''
                        (duration_ms (clock env (now_calls w + 1) - clock env (now_calls w)))
                        (times tester),
                      sharedData := d1\<rparr>,
                     w\<lparr>now_calls := now_calls w + 2, runs := runs w + 1\<rparr>)
         \<and> testStandardMutex env
               (tester\<lparr>times := map_assign ''Shared Mutex Time''
                        (duration_ms (clock env (now_calls w + 1) - clock env (now_calls w)))
                        (times tester),
                      sharedData := d1\<rparr>,
                w\<lparr>now_calls := now_calls w + 2, runs := runs w + 1\<rparr>)
             = Some (tester\<lparr>times := map_assign ''Standard Mutex Time''
                        (duration_ms (clock env (now_calls w + 3) - clock env (now_calls w + 2)))
                        (map_assign ''Shared Mutex Time''
                          (duration_ms (clock env (now_calls w + 1) - clock env (now_calls w)))
                          (times tester)),
                      sharedData := d2\<rparr>,
                     w\<lparr>now_calls := now_calls w + 4, runs := runs w + 2\<rparr>)
         \<and> counter d1 = counter (sharedData tester)
               + of_nat (nat (numWriters tester) * nat (numUpdates tester))
         \<and> counter d2 = counter d1
               + of_nat (nat (numWriters tester) * nat (numUpdates tester))"
proof -
  let ?v1 = "duration_ms (clock env (now_calls w + 1) - clock env (now_calls w))"
  let ?w1 = "w\<lparr>now_calls := now_calls w + 2, runs := runs w + 1\<rparr>"
  from timed_run_returns[OF strategy_shared f1, of "''Shared Mutex Time''"]
  obtain d1 where
    r1: "testSharedMutex env (tester, w)
          = Some (tester\<lparr>times := map_assign ''Shared Mutex Time'' ?v1 (times tester),
                         sharedData := d1\<rparr>, ?w1)"
    and c1: "counter d1 = counter (sharedData tester)
               + of_nat (nat (numWriters tester) * nat (numUpdates tester))"
    unfolding testSharedMutex_def Let_def by blast
  let ?t1 = "tester\<lparr>times := map_assign ''Shared Mutex Time'' ?v1 (times tester), sharedData := d1\<rparr>"
  from f2 have f2': "fair (nat (numReaders ?t1) + nat (numWriters ?t1)) (sched env (runs ?w1))"
    by simp
  from timed_run_returns[OF strategy_standard f2', of "''Standard Mutex Time''"]
  obtain d2 where
    r2: "testStandardMutex env (?t1, ?w1)
          = Some (?t1\<lparr>times := map_assign ''Standard Mutex Time''
                          (duration_ms (clock env (now_calls ?w1 + 1) - clock env (now_calls ?w1)))
                          (times ?t1),
                      sharedData := d2\<rparr>,
                  ?w1\<lparr>now_calls := now_calls ?w1 + 2, runs := runs ?w1 + 1\<rparr>)"
    and c2: "counter d2 = counter (sharedData ?t1)
               + of_nat (nat (numWriters ?t1) * nat (numUpdates ?t1))"
    unfolding testStandardMutex_def Let_def by blast
  have a: "now_calls w + 2 + 1 = now_calls w + 3" "now_calls w + 2 + 2 = now_calls w + 4"
    "runs w + 1 + 1 = runs w + 2" by simp_all
  from r2 have r2': "testStandardMutex env (?t1, ?w1)
          = Some (tester\<lparr>times := map_assign ''Standard Mutex Time''
                        (duration_ms (clock env (now_calls w + 3) - clock env (now_calls w + 2)))
                        (map_assign ''Shared Mutex Time'' ?v1 (times tester)),
                      sharedData := d2\<rparr>,
                     w\<lparr>now_calls := now_calls w + 4, runs := runs w + 2\<rparr>)"
    by (simp add: eval_nat_numeral)
  from c2 have c2': "counter d2 = counter d1
               + of_nat (nat (numWriters tester) * nat (numUpdates tester))" by simp
  from r1 r2' c1 c2' show ?thesis by blast
qed


text \<open>
  Claim C1, as the code has it. Whatever the interleaving (under every fair schedule), a
  run under either strategy returns and adds the number of writers times the updates
  per writer to the counter, and the record is not reset between the runs of a trial.
  So, for non-negative \<open>W\<close> and \<open>U\<close>: a run under either strategy that starts on a fresh
  record (counter 0) ends with the counter at exactly \<open>W * U\<close>, when \<open>W * U\<close> fits an
  \<open>int\<close>; and the exclusive-lock run made after the shared-lock run on the same tester,
  as \<open>Benchmark::run\<close> does, ends with the counter at exactly \<open>2 * W * U\<close>, when \<open>2 * W * U\<close>
  fits an \<open>int\<close>.
\<close>

theorem run_adds_updates:
  assumes fair1: "fair (nat (numReaders tester) + nat (numWriters tester)) (sched env (runs w))"
    and fair2: "fair (nat (numReaders tester) + nat (numWriters tester)) (sched env (runs w + 1))"
  shows "\<exists>t1 w1 t2 w2 t3 w3.
           testSharedMutex env (tester, w) = Some (t1, w1)
         \<and> testStandardMutex env (t1, w1) = Some (t2, w2)
         \<and> testStandardMutex env (tester, w) = Some (t3, w3)
         \<and> counter (sharedData t1) = counter (sharedData tester)
              + of_nat (nat (numWriters tester) * nat (numUpdates tester))
         \<and> counter (sharedData t2) = counter (sharedData t1)
              + of_nat (nat (numWriters tester) * nat (numUpdates tester))
         \<and> counter (sharedData t3) = counter (sharedData tester)
              + of_nat (nat (numWriters tester) * nat (numUpdates tester))
         \<and> (counter (sharedData tester) = 0 \<and> 0 \<le> numWriters tester \<and> 0 \<le> numUpdates tester
              \<and> numWriters tester * numUpdates tester < 2 ^ 31
             \<longrightarrow> sint (counter (sharedData t1)) = numWriters tester * numUpdates tester
               \<and> sint (counter (sharedData t3)) = numWriters tester * numUpdates tester)
         \<and> (counter (sharedData tester) = 0 \<and> 0 \<le> numWriters tester \<and> 0 \<le> numUpdates tester
              \<and> 2 * numWriters tester * numUpdates tester < 2 ^ 31
             \<longrightarrow> sint (counter (sharedData t2)) = 2 * numWriters tester * numUpdates tester)"
proof -
  let ?W = "numWriters tester" and ?U = "numUpdates tester"
  let ?n = "nat ?W * nat ?U"
  from trial_returns[OF fair1 fair2] obtain t1 w1 t2 w2 where
    r1: "testSharedMutex env (tester, w) = Some (t1, w1)"
    and r2: "testStandardMutex env (t1, w1) = Some (t2, w2)"
    and c1: "counter (sharedData t1) = counter (sharedData tester) + of_nat ?n"
    and c2: "counter (sharedData t2) = counter (sharedData t1) + of_nat ?n"
    by force
  from timed_run_returns[OF strategy_standard fair1, of "''Standard Mutex Time''"]
  obtain t3 w3 where r3: "testStandardMutex env (tester, w) = Some (t3, w3)"
    and c3: "counter (sharedData t3) = counter (sharedData tester) + of_nat ?n"
    unfolding testStandardMutex_def Let_def by auto
  have once: "sint (counter (sharedData t1)) = ?W * ?U \<and> sint (counter (sharedData t3)) = ?W * ?U"
    if "counter (sharedData tester) = 0" "0 \<le> ?W" "0 \<le> ?U" "?W * ?U < 2 ^ 31"
  proof -
    from that have "?n = nat (?W * ?U)" by (simp add: nat_mult_distrib)
    with that(1) c1 c3 have "counter (sharedData t1) = of_nat (nat (?W * ?U))"
      "counter (sharedData t3) = of_nat (nat (?W * ?U))" by simp_all
    moreover from that have "0 \<le> ?W * ?U" by simp
    ultimately show ?thesis using that(4) sint_counter by metis
  qed
  have twice: "sint (counter (sharedData t2)) = 2 * ?W * ?U"
    if "counter (sharedData tester) = 0" "0 \<le> ?W" "0 \<le> ?U" "2 * ?W * ?U < 2 ^ 31"
  proof -
    from that have n: "?n + ?n = nat (2 * ?W * ?U)" by (simp add: nat_mult_distrib)
    from c1 c2 that(1) have "counter (sharedData t2) = of_nat ?n + of_nat ?n" by simp
    also have "\<dots> = of_nat (?n + ?n)" by (simp only: of_nat_add)
    finally have "counter (sharedData t2) = of_nat (nat (2 * ?W * ?U))" by (simp only: n)
    moreover from that have "0 \<le> 2 * ?W * ?U" by simp
    ultimately show ?thesis using that(4) sint_counter by metis
  qed
  from r1 r2 r3 c1 c2 c3 once twice show ?thesis by blast
qed

theorem run_adds_updates_witness:
  "fair (nat (numReaders (LockTester 1 2 2 3)) + nat (numWriters (LockTester 1 2 2 3)))
        (sched sample_env (runs world0))
   \<and> fair (nat (numReaders (LockTester 1 2 2 3)) + nat (numWriters (LockTester 1 2 2 3)))
        (sched sample_env (runs world0 + 1))
   \<and> (\<exists>t1 w1 t2 w2 t3 w3.
         testSharedMutex sample_env (LockTester 1 2 2 3, world0) = Some (t1, w1)
       \<and> testStandardMutex sample_env (t1, w1) = Some (t2, w2)
       \<and> testStandardMutex sample_env (LockTester 1 2 2 3, world0) = Some (t3, w3)
       \<and> sint (counter (sharedData t1)) = 6
       \<and> sint (counter (sharedData t2)) = 12
       \<and> sint (counter (sharedData t3)) = 6)"
proof -
  have f: "fair (nat (numReaders (LockTester 1 2 2 3)) + nat (numWriters (LockTester 1 2 2 3)))
        (sched sample_env r)" for r
    by (simp add: LockTester_def sample_env_def fair_mod)
  have t: "counter (sharedData (LockTester 1 2 2 3)) = 0" "numWriters (LockTester 1 2 2 3) = 2"
    "numUpdates (LockTester 1 2 2 3) = 3"
    by (simp_all add: LockTester_def)
  from run_adds_updates[OF f f, of world0] obtain t1 w1 t2 w2 t3 w3 where
    r: "testSharedMutex sample_env (LockTester 1 2 2 3, world0) = Some (t1, w1)"
       "testStandardMutex sample_env (t1, w1) = Some (t2, w2)"
       "testStandardMutex sample_env (LockTester 1 2 2 3, world0) = Some (t3, w3)"
    and a: "counter (sharedData (LockTester 1 2 2 3)) = 0 \<and> 0 \<le> numWriters (LockTester 1 2 2 3)
              \<and> 0 \<le> numUpdates (LockTester 1 2 2 3)
              \<and> numWriters (LockTester 1 2 2 3) * numUpdates (LockTester 1 2 2 3) < 2 ^ 31
             \<longrightarrow> sint (counter (sharedData t1))
                   = numWriters (LockTester 1 2 2 3) * numUpdates (LockTester 1 2 2 3)
               \<and> sint (counter (sharedData t3))
                   = numWriters (LockTester 1 2 2 3) * numUpdates (LockTester 1 2 2 3)"
    and b: "counter (sharedData (LockTester 1 2 2 3)) = 0 \<and> 0 \<le> numWriters (LockTester 1 2 2 3)
              \<and> 0 \<le> numUpdates (LockTester 1 2 2 3)
              \<and> 2 * numWriters (LockTester 1 2 2 3) * numUpdates (LockTester 1 2 2 3) < 2 ^ 31
             \<longrightarrow> sint (counter (sharedData t2))
                   = 2 * numWriters (LockTester 1 2 2 3) * numUpdates (LockTester 1 2 2 3)"
    by blast
  from a b have "sint (counter (sharedData t1)) = 6" "sint (counter (sharedData t2)) = 12"
    "sint (counter (sharedData t3)) = 6"
    by (simp_all add: t)
  with r f[of "runs world0"] f[of "runs world0 + 1"] show ?thesis by blast
qed

text \<open>
  The claim fails at the configuration (readers 0, writers 1, reads 0, updates 5) for the
  exclusive-lock run of a trial: \<open>Benchmark::run\<close> calls \<open>testStandardMutex\<close> on the tester
  \<open>testSharedMutex\<close> has just run, and the counter, 5 after the first run, is 10 after
  the second.
\<close>

theorem second_run_counterexample:
  "counter_after (testSharedMutex sample_env (LockTester 0 1 0 5, world0)) = Some 5
   \<and> counter_after (Option.bind (testSharedMutex sample_env (LockTester 0 1 0 5, world0))
                                 (testStandardMutex sample_env)) = Some 10"
proof -
  let ?t = "LockTester 0 1 0 5"
  have t: "numReaders ?t = 0" "numWriters ?t = 1" "numUpdates ?t = 5"
    "counter (sharedData ?t) = 0"
    by (simp_all add: LockTester_def)
  have f: "fair (nat (numReaders ?t) + nat (numWriters ?t)) (sched sample_env r)" for r
    by (simp add: t sample_env_def fair_mod)
  from trial_returns[OF f f, of world0] obtain t1 w1 t2 w2 d1 d2 where
    r: "testSharedMutex sample_env (?t, world0) = Some (t1, w1)"
       "testStandardMutex sample_env (t1, w1) = Some (t2, w2)"
       "sharedData t1 = d1" "sharedData t2 = d2"
    and c: "counter d1 = counter (sharedData ?t) + of_nat (nat (numWriters ?t) * nat (numUpdates ?t))"
       "counter d2 = counter d1 + of_nat (nat (numWriters ?t) * nat (numUpdates ?t))"
    by force
  from c have "counter d1 = 5" "counter d2 = 10" by (simp_all add: t)
  with r show ?thesis by (simp add: counter_after_def)
qed

section \<open>Properties of \<open>Benchmark::run\<close>\<close>

lemma fair_mono: "K' \<le> K \<Longrightarrow> fair K schedule \<Longrightarrow> fair K' schedule"
  by (auto simp: fair_def)

lemma run_loop_results:
  assumes fair: "\<And>r. fair K (sched env r)"
  shows "(\<forall>t \<in> set testers. times t = [] \<and> nat (numReaders t) + nat (numWriters t) \<le> K) \<Longrightarrow>
     \<exists>finished'.
       run_loop env testers (finished, res, w)
         = Some (finished @ finished',
                 res @ map (\<lambda>j. trial_result env (now_calls w + 4 * j) (testers ! j))
                           [0 ..< length testers],
                 w\<lparr>now_calls := now_calls w + 4 * length testers,
                   runs := runs w + 2 * length testers\<rparr>)
       \<and> length finished' = length testers
       \<and> (\<forall>j<length testers.
             times (finished' ! j) = []
             \<and> numReaders (finished' ! j) = numReaders (testers ! j)
             \<and> numWriters (finished' ! j) = numWriters (testers ! j)
             \<and> numReads (finished' ! j) = numReads (testers ! j)
             \<and> numUpdates (finished' ! j) = numUpdates (testers ! j)
             \<and> counter (sharedData (finished' ! j))
                 = counter (sharedData (testers ! j))
                   + of_nat (2 * (nat (numWriters (testers ! j)) * nat (numUpdates (testers ! j)))))"
proof (induction testers arbitrary: finished res w)
  case Nil
  show ?case by simp
next
  case (Cons t ts)
  let ?K = "nat (numReaders t) + nat (numWriters t)"
  let ?WU = "nat (numWriters t) * nat (numUpdates t)"
  from Cons.prems have t: "times t = []" "?K \<le> K" by simp_all
  have f: "fair ?K (sched env r)" for r using fair_mono[OF t(2) fair] .
  let ?v1 = "duration_ms (clock env (now_calls w + 1) - clock env (now_calls w))"
  let ?v2 = "duration_ms (clock env (now_calls w + 3) - clock env (now_calls w + 2))"
  let ?w1 = "w\<lparr>now_calls := now_calls w + 2, runs := runs w + 1\<rparr>"
  let ?w2 = "w\<lparr>now_calls := now_calls w + 4, runs := runs w + 2\<rparr>"
  from trial_returns[OF f f, of w] t(1) obtain d1 d2 where
    r1: "testSharedMutex env (t, w)
          = Some (t\<lparr>times := [(''Shared Mutex Time'', ?v1)], sharedData := d1\<rparr>, ?w1)"
    and r2: "testStandardMutex env (t\<lparr>times := [(''Shared Mutex Time'', ?v1)], sharedData := d1\<rparr>, ?w1)
          = Some (t\<lparr>times := [(''Shared Mutex Time'', ?v1), (''Standard Mutex Time'', ?v2)],
                     sharedData := d2\<rparr>, ?w2)"
    and c1: "counter d1 = counter (sharedData t) + of_nat ?WU"
    and c2: "counter d2 = counter d1 + of_nat ?WU"
    by auto
  let ?t2 = "t\<lparr>times := [(''Shared Mutex Time'', ?v1), (''Standard Mutex Time'', ?v2)],
               sharedData := d2\<rparr>"
  have step: "run_loop env (t # ts) (finished, res, w)
              = run_loop env ts (finished @ [?t2\<lparr>times := []\<rparr>], res @ [result_of ?t2], ?w2)"
    by (simp only: run_loop.simps r1 r2 option.case prod.case)
  have res_t: "result_of ?t2 = trial_result env (now_calls w) t"
    by (simp add: result_of_def trial_result_def)
  from Cons.prems have
    "\<forall>t \<in> set ts. times t = [] \<and> nat (numReaders t) + nat (numWriters t) \<le> K" by simp
  from Cons.IH[OF this, of "finished @ [?t2\<lparr>times := []\<rparr>]" "res @ [result_of ?t2]" ?w2]
  obtain fin where
    rl: "run_loop env ts (finished @ [?t2\<lparr>times := []\<rparr>], res @ [result_of ?t2], ?w2)
          = Some ((finished @ [?t2\<lparr>times := []\<rparr>]) @ fin,
                  (res @ [result_of ?t2])
                    @ map (\<lambda>j. trial_result env (now_calls ?w2 + 4 * j) (ts ! j)) [0 ..< length ts],
                  ?w2\<lparr>now_calls := now_calls ?w2 + 4 * length ts,
                       runs := runs ?w2 + 2 * length ts\<rparr>)"
    and len: "length fin = length ts"
    and each: "\<forall>j<length ts.
             times (fin ! j) = []
             \<and> numReaders (fin ! j) = numReaders (ts ! j)
             \<and> numWriters (fin ! j) = numWriters (ts ! j)
             \<and> numReads (fin ! j) = numReads (ts ! j)
             \<and> numUpdates (fin ! j) = numUpdates (ts ! j)
             \<and> counter (sharedData (fin ! j))
                 = counter (sharedData (ts ! j))
                   + of_nat (2 * (nat (numWriters (ts ! j)) * nat (numUpdates (ts ! j))))"
    by blast
  have maps: "map (\<lambda>j. trial_result env (now_calls w + 4 * j) ((t # ts) ! j)) [0 ..< length (t # ts)]
        = trial_result env (now_calls w) t
          # map (\<lambda>j. trial_result env (now_calls ?w2 + 4 * j) (ts ! j)) [0 ..< length ts]"
    by (simp add: map_upt_Suc add.assoc del: upt_Suc)
  have wfin: "?w2\<lparr>now_calls := now_calls ?w2 + 4 * length ts, runs := runs ?w2 + 2 * length ts\<rparr>
        = w\<lparr>now_calls := now_calls w + 4 * length (t # ts), runs := runs w + 2 * length (t # ts)\<rparr>"
    by simp
  have c: "counter d2 = counter (sharedData t) + of_nat (2 * ?WU)"
    using c1 c2 by simp
  let ?fin = "?t2\<lparr>times := []\<rparr> # fin"
  have "run_loop env (t # ts) (finished, res, w)
         = Some ((finished @ [?t2\<lparr>times := []\<rparr>]) @ fin,
                  (res @ [result_of ?t2])
                    @ map (\<lambda>j. trial_result env (now_calls ?w2 + 4 * j) (ts ! j)) [0 ..< length ts],
                  ?w2\<lparr>now_calls := now_calls ?w2 + 4 * length ts,
                       runs := runs ?w2 + 2 * length ts\<rparr>)"
    by (simp only: step rl)
  also have "\<dots> = Some (finished @ ?fin,
                 res @ map (\<lambda>j. trial_result env (now_calls w + 4 * j) ((t # ts) ! j))
                           [0 ..< length (t # ts)],
                 w\<lparr>now_calls := now_calls w + 4 * length (t # ts),
                   runs := runs w + 2 * length (t # ts)\<rparr>)"
    by (simp only: maps wfin res_t append_assoc append_Cons append_Nil)
  finally have "run_loop env (t # ts) (finished, res, w)
         = Some (finished @ ?fin,
                 res @ map (\<lambda>j. trial_result env (now_calls w + 4 * j) ((t # ts) ! j))
                           [0 ..< length (t # ts)],
                 w\<lparr>now_calls := now_calls w + 4 * length (t # ts),
                   runs := runs w + 2 * length (t # ts)\<rparr>)" .
  moreover have "length ?fin = length (t # ts)" using len by simp
  moreover have "\<forall>j<length (t # ts).
             times (?fin ! j) = []
             \<and> numReaders (?fin ! j) = numReaders ((t # ts) ! j)
             \<and> numWriters (?fin ! j) = numWriters ((t # ts) ! j)
             \<and> numReads (?fin ! j) = numReads ((t # ts) ! j)
             \<and> numUpdates (?fin ! j) = numUpdates ((t # ts) ! j)
             \<and> counter (sharedData (?fin ! j))
                 = counter (sharedData ((t # ts) ! j))
                   + of_nat (2 * (nat (numWriters ((t # ts) ! j)) * nat (numUpdates ((t # ts) ! j))))"
  proof (intro allI impI)
    fix j assume "j < length (t # ts)"
    then show "times (?fin ! j) = []
             \<and> numReaders (?fin ! j) = numReaders ((t # ts) ! j)
             \<and> numWriters (?fin ! j) = numWriters ((t # ts) ! j)
             \<and> numReads (?fin ! j) = numReads ((t # ts) ! j)
             \<and> numUpdates (?fin ! j) = numUpdates ((t # ts) ! j)
             \<and> counter (sharedData (?fin ! j))
                 = counter (sharedData ((t # ts) ! j))
                   + of_nat (2 * (nat (numWriters ((t # ts) ! j)) * nat (numUpdates ((t # ts) ! j))))"
      using each c by (cases j) simp_all
  qed
  ultimately show ?case by blast
qed

lemma fold_addTestCase:
  "testCases (fold (\<lambda>(a, b, c, d). addTestCase a b c d) cfgs b0)
     = testCases b0 @ map (\<lambda>(a, b, c, d). LockTester a b c d) cfgs
   \<and> results (fold (\<lambda>(a, b, c, d). addTestCase a b c d) cfgs b0) = results b0"
  by (induction cfgs arbitrary: b0) (auto simp: addTestCase_def)

lemma build_fields:
  "testCases (build cfgs) = map (\<lambda>(a, b, c, d). LockTester a b c d) cfgs"
  "results (build cfgs) = []"
  using fold_addTestCase[of cfgs Benchmark] by (simp_all add: build_def Benchmark_def)

lemma run_build:
  assumes fair: "\<And>r. fair K (sched env r)"
    and small: "\<forall>(a, b, c, d) \<in> set cfgs. nat a + nat b \<le> K"
  shows "\<exists>fin. run env (build cfgs, world0)
            = Some (build cfgs\<lparr>testCases := fin,
                      results := map (\<lambda>j. trial_result env (4 * j) (testCases (build cfgs) ! j))
                                     [0 ..< length cfgs]\<rparr>,
                    \<lparr>now_calls = 4 * length cfgs, runs = 2 * length cfgs\<rparr>)
          \<and> length fin = length cfgs
          \<and> (\<forall>j<length cfgs.
                counter (sharedData (fin ! j))
                  = of_nat (2 * (nat (fst (snd (cfgs ! j))) * nat (snd (snd (snd (cfgs ! j)))))))"
proof -
  let ?ts = "map (\<lambda>(a, b, c, d). LockTester a b c d) cfgs"
  from small have pre: "\<forall>t \<in> set ?ts. times t = [] \<and> nat (numReaders t) + nat (numWriters t) \<le> K"
    by (auto simp: LockTester_def)
  from run_loop_results[OF fair pre, of "[]" "[]" world0] obtain fin where
    rl: "run_loop env ?ts ([], [], world0)
          = Some ([] @ fin,
                  [] @ map (\<lambda>j. trial_result env (now_calls world0 + 4 * j) (?ts ! j)) [0 ..< length ?ts],
                  world0\<lparr>now_calls := now_calls world0 + 4 * length ?ts,
                         runs := runs world0 + 2 * length ?ts\<rparr>)"
    and len: "length fin = length ?ts"
    and each: "\<forall>j<length ?ts. counter (sharedData (fin ! j))
                 = counter (sharedData (?ts ! j))
                   + of_nat (2 * (nat (numWriters (?ts ! j)) * nat (numUpdates (?ts ! j))))"
    by blast
  have "run env (build cfgs, world0)
            = Some (build cfgs\<lparr>testCases := fin,
                      results := map (\<lambda>j. trial_result env (4 * j) (testCases (build cfgs) ! j))
                                     [0 ..< length cfgs]\<rparr>,
                    \<lparr>now_calls = 4 * length cfgs, runs = 2 * length cfgs\<rparr>)"
    using rl by (simp add: run_def build_fields world0_def)
  moreover have "length fin = length cfgs" using len by simp
  moreover have "\<forall>j<length cfgs.
                counter (sharedData (fin ! j))
                  = of_nat (2 * (nat (fst (snd (cfgs ! j))) * nat (snd (snd (snd (cfgs ! j))))))"
  proof (intro allI impI)
    fix j assume j: "j < length cfgs"
    obtain a b c d where cj: "cfgs ! j = (a, b, c, d)" by (cases "cfgs ! j") auto
    with j have "?ts ! j = LockTester a b c d" by simp
    with each j cj show "counter (sharedData (fin ! j))
                  = of_nat (2 * (nat (fst (snd (cfgs ! j))) * nat (snd (snd (snd (cfgs ! j))))))"
      by (simp add: LockTester_def)
  qed
  ultimately show ?thesis by blast
qed

text \<open>
  Claim C3. For a benchmark built by calls of \<open>addTestCase\<close>, \<open>run\<close> (under fair schedules)
  returns with one result for each configuration, in the order of the calls: result
  number \<open>j\<close> holds the four counts of configuration number \<open>j\<close> and exactly the two keys
  \<open>Shared Mutex Time\<close> and \<open>Standard Mutex Time\<close>. The shared-lock run of configuration
  \<open>j\<close> is timed by the clock readings number \<open>4j\<close> and \<open>4j + 1\<close>, its exclusive-lock run by
  the readings \<open>4j + 2\<close> and \<open>4j + 3\<close>: the configurations are processed in order, and for
  each the shared-lock run comes first.
\<close>

theorem run_in_order:
  assumes fair: "\<And>r. fair K (sched env r)"
    and small: "\<forall>(a, b, c, d) \<in> set cfgs. nat a + nat b \<le> K"
  shows "\<exists>b'. run env (build cfgs, world0)
                 = Some (b', \<lparr>now_calls = 4 * length cfgs, runs = 2 * length cfgs\<rparr>)
           \<and> results b'
               = map (\<lambda>j. case cfgs ! j of (a, b, c, d) \<Rightarrow>
                        \<lparr>Result.times =
                           [(''Shared Mutex Time'',
                             duration_ms (clock env (4 * j + 1) - clock env (4 * j))),
                            (''Standard Mutex Time'',
                             duration_ms (clock env (4 * j + 3) - clock env (4 * j + 2)))],
                         Result.numReaders = a, Result.numWriters = b,
                         Result.numReads = c, Result.numUpdates = d\<rparr>)
                     [0 ..< length cfgs]"
proof -
  from run_build[OF fair small] obtain fin where
    r: "run env (build cfgs, world0)
            = Some (build cfgs\<lparr>testCases := fin,
                      results := map (\<lambda>j. trial_result env (4 * j) (testCases (build cfgs) ! j))
                                     [0 ..< length cfgs]\<rparr>,
                    \<lparr>now_calls = 4 * length cfgs, runs = 2 * length cfgs\<rparr>)"
    by blast
  have "map (\<lambda>j. trial_result env (4 * j) (testCases (build cfgs) ! j)) [0 ..< length cfgs]
        = map (\<lambda>j. case cfgs ! j of (a, b, c, d) \<Rightarrow>
                        \<lparr>Result.times =
                           [(''Shared Mutex Time'',
                             duration_ms (clock env (4 * j + 1) - clock env (4 * j))),
                            (''Standard Mutex Time'',
                             duration_ms (clock env (4 * j + 3) - clock env (4 * j + 2)))],
                         Result.numReaders = a, Result.numWriters = b,
                         Result.numReads = c, Result.numUpdates = d\<rparr>)
                     [0 ..< length cfgs]"
    by (rule map_cong[OF refl])
       (auto simp: build_fields trial_result_def LockTester_def split: prod.splits)
  with r show ?thesis by simp
qed


theorem run_in_order_witness:
  "\<exists>b'. run sample_env (build [(1, 2, 2, 3), (0, 1, 0, 5)], world0)
           = Some (b', \<lparr>now_calls = 8, runs = 4\<rparr>)
       \<and> results b'
           = [\<lparr>Result.times = [(''Shared Mutex Time'', 2), (''Standard Mutex Time'', 2)],
               Result.numReaders = 1, Result.numWriters = 2,
               Result.numReads = 2, Result.numUpdates = 3\<rparr>,
              \<lparr>Result.times = [(''Shared Mutex Time'', 2), (''Standard Mutex Time'', 2)],
               Result.numReaders = 0, Result.numWriters = 1,
               Result.numReads = 0, Result.numUpdates = 5\<rparr>]"
proof -
  have f: "fair 3 (sched sample_env r)" for r
    by (simp add: sample_env_def fair_mod)
  have s: "\<forall>(a, b, c, d) \<in> set [(1, 2, 2, 3), (0, 1, 0, 5 :: int)]. nat a + nat b \<le> 3"
    by simp
  have u: "[0 ..< length [(1, 2, 2, 3), (0, 1, 0, 5 :: int)]] = [0, 1]"
    by (simp add: upt_rec)
  from run_in_order[OF f s] show ?thesis
    unfolding u by (simp add: sample_env_def duration_ms_def)
qed

text \<open>
  Claim C9. The record of a tester is not reset between its two runs: after
  \<open>Benchmark::run\<close> (under fair schedules) the counter of the tester of every
  configuration with \<open>W\<close> writers and \<open>U\<close> updates per writer (both non-negative, \<open>2 * W * U\<close>
  within the range of \<open>int\<close>) is \<open>2 * W * U\<close>.
\<close>

theorem run_counters:
  assumes fair: "\<And>r. fair K (sched env r)"
    and cfgs: "\<forall>(a, b, c, d) \<in> set cfgs. nat a + nat b \<le> K \<and> 0 \<le> b \<and> 0 \<le> d \<and> 2 * b * d < 2 ^ 31"
  shows "\<exists>b' w'. run env (build cfgs, world0) = Some (b', w')
           \<and> map (\<lambda>tester. sint (counter (sharedData tester))) (testCases b')
               = map (\<lambda>(a, b, c, d). 2 * b * d) cfgs"
proof -
  from cfgs have small: "\<forall>(a, b, c, d) \<in> set cfgs. nat a + nat b \<le> K" by auto
  from run_build[OF fair small] obtain fin where
    r: "run env (build cfgs, world0)
            = Some (build cfgs\<lparr>testCases := fin,
                      results := map (\<lambda>j. trial_result env (4 * j) (testCases (build cfgs) ! j))
                                     [0 ..< length cfgs]\<rparr>,
                    \<lparr>now_calls = 4 * length cfgs, runs = 2 * length cfgs\<rparr>)"
    and len: "length fin = length cfgs"
    and each: "\<forall>j<length cfgs.
                counter (sharedData (fin ! j))
                  = of_nat (2 * (nat (fst (snd (cfgs ! j))) * nat (snd (snd (snd (cfgs ! j))))))"
    by blast
  have "map (\<lambda>tester. sint (counter (sharedData tester))) fin = map (\<lambda>(a, b, c, d). 2 * b * d) cfgs"
  proof (rule nth_equalityI)
    show "length (map (\<lambda>tester. sint (counter (sharedData tester))) fin)
          = length (map (\<lambda>(a, b, c, d). 2 * b * d) cfgs)"
      using len by simp
  next
    fix j assume "j < length (map (\<lambda>tester. sint (counter (sharedData tester))) fin)"
    with len have j: "j < length cfgs" by simp
    obtain a b c d where cj: "cfgs ! j = (a, b, c, d)" by (cases "cfgs ! j") auto
    from j cj cfgs have b: "0 \<le> b" "0 \<le> d" "2 * b * d < 2 ^ 31"
      using nth_mem[OF j] by auto
    then have eq: "2 * (nat b * nat d) = nat (2 * b * d)"
      by (simp add: nat_mult_distrib)
    from each j have "counter (sharedData (fin ! j))
        = of_nat (2 * (nat (fst (snd (cfgs ! j))) * nat (snd (snd (snd (cfgs ! j))))))" by blast
    then have "counter (sharedData (fin ! j)) = of_nat (2 * (nat b * nat d))"
      unfolding cj by (simp only: fst_conv snd_conv)
    then have "counter (sharedData (fin ! j)) = of_nat (nat (2 * b * d))"
      by (simp only: eq)
    moreover from b have "0 \<le> 2 * b * d" by simp
    ultimately have "sint (counter (sharedData (fin ! j))) = 2 * b * d"
      using sint_counter[of "2 * b * d"] b(3) by simp
    with j len cj
    show "map (\<lambda>tester. sint (counter (sharedData tester))) fin ! j
          = map (\<lambda>(a, b, c, d). 2 * b * d) cfgs ! j" by simp
  qed
  with r show ?thesis by simp
qed

theorem run_counters_witness:
  "\<exists>b' w'. run sample_env (build [(1, 2, 2, 3), (0, 1, 0, 5)], world0) = Some (b', w')
       \<and> map (\<lambda>tester. sint (counter (sharedData tester))) (testCases b') = [12, 10]"
proof -
  have f: "fair 3 (sched sample_env r)" for r
    by (simp add: sample_env_def fair_mod)
  have s: "\<forall>(a, b, c, d) \<in> set [(1, 2, 2, 3), (0, 1, 0, 5 :: int)].
             nat a + nat b \<le> 3 \<and> 0 \<le> b \<and> 0 \<le> d \<and> 2 * b * d < 2 ^ 31"
    by simp
  from run_counters[OF f s] show ?thesis by simp
qed

section \<open>The iterations of a writer\<close>

lemma step_data:
  assumes "data (step eng tester j s) \<noteq> data s"
  shows "j < length (threads s) \<and> is_writer (threads s ! j) \<and> (\<exists>v. pc (threads s ! j) = Loaded v)"
proof -
  from assms have en: "enabled eng tester j s" using step_not_enabled by fastforce
  then obtain t' s' where j: "j < length (threads s)"
    and st: "thread_step eng tester (threads s ! j) s = Some (t', s')"
    by (auto simp: enabled_def)
  with assms have d: "data s' \<noteq> data s" by (simp add: step_def)
  let ?t = "threads s ! j"
  have "is_writer ?t \<and> (\<exists>v. pc ?t = Loaded v)"
  proof (cases "entry ?t")
    case ReaderSharedLock
    with st have "readerSharedLock tester ?t s = Some (t', s')" by (simp add: thread_step_def)
    from readerSharedLock_cases[OF this] d show ?thesis by auto
  next
    case WriterSharedLock
    with st have "writerSharedLock eng tester ?t s = Some (t', s')" by (simp add: thread_step_def)
    from writerSharedLock_cases[OF this] d WriterSharedLock show ?thesis
      by (auto simp: is_writer_def)
  next
    case ReaderStandardLock
    with st have "readerStandardLock tester ?t s = Some (t', s')" by (simp add: thread_step_def)
    from readerStandardLock_cases[OF this] d show ?thesis by auto
  next
    case WriterStandardLock
    with st have "writerStandardLock eng tester ?t s = Some (t', s')" by (simp add: thread_step_def)
    from writerStandardLock_cases[OF this] d WriterStandardLock show ?thesis
      by (auto simp: is_writer_def)
  qed
  with j show ?thesis by simp
qed

lemma generate_length: "length (fst (generate eng n g)) = n"
  by (simp add: generate_def generate_loop_length)

lemma writer_write_step:
  assumes k: "k < length (threads s)" and w: "is_writer (threads s ! k)"
    and pc: "pc (threads s ! k) = Loaded v"
  shows "counter (data (step eng tester k s)) = v + 1
       \<and> text_str (data (step eng tester k s)) = fst (generate eng 100000 (generator (threads s ! k)))
       \<and> i (threads (step eng tester k s) ! k) = i (threads s ! k) + 1
       \<and> pc (threads (step eng tester k s) ! k) = Idle
       \<and> generator (threads (step eng tester k s) ! k)
           = snd (generate eng 100000 (generator (threads s ! k)))"
  using assms
  by (auto simp: is_writer_def step_def thread_step_def writerSharedLock_def
      writerStandardLock_def split: prod.splits)

lemma writer_holds_lock:
  assumes inv: "run_inv tester es c0 s" and k: "k < length (threads s)"
    and w: "is_writer (threads s ! k)" and cs: "pc (threads s ! k) \<noteq> Idle"
  shows "if entry (threads s ! k) = WriterSharedLock
         then sm_exclusive s \<and> sm_shared s = 0 else standardMutex s"
proof (cases "entry (threads s ! k) = WriterSharedLock")
  case True
  from inv have ex: "of_bool (sm_exclusive s) = total_of holds_exclusive s"
    and xs: "sm_exclusive s \<longrightarrow> sm_shared s = 0"
    unfolding run_inv_def by blast+
  from True cs have "holds_exclusive (threads s ! k) = 1" by (simp add: holds_exclusive_def)
  with total_ge[OF k, of holds_exclusive] ex have "sm_exclusive s"
    by (cases "sm_exclusive s") simp_all
  with xs True show ?thesis by simp
next
  case False
  with w have "entry (threads s ! k) = WriterStandardLock" by (simp add: is_writer_def)
  with standard_held[OF inv k _ cs] False show ?thesis by simp
qed


text \<open>
  Claim C7. In both strategies and in every interleaving (\<open>s\<close> is the state after any
  number of steps of any schedule), a writer performs at most \<open>updatesPerWriter\<close>
  iterations and exactly that many when all threads have returned, which happens under
  every fair schedule. While a writer is inside an iteration it owns its mutex
  exclusively and every other thread is outside its critical section. The value it has
  read from the counter is still the counter's value when it writes, so its write step
  increments the counter by exactly 1; the same step replaces the text by the 100000
  characters generated from the writer's own engine at that moment. No other step
  changes the record, and the counter is its value at the start of the run plus the
  number of iterations the writers have completed.
\<close>

theorem writer_iterations:
  assumes str: "strategy rd wr"
    and s: "s = run_steps (engine env) tester schedule n (start_run env w rd wr tester)"
    and k: "k < length (threads s)" and wk: "entry (threads s ! k) = wr"
  shows "0 \<le> i (threads s ! k) \<and> i (threads s ! k) \<le> max 0 (numUpdates tester)
    \<and> (all_returned tester s \<longrightarrow> i (threads s ! k) = max 0 (numUpdates tester))
    \<and> (fair (length (threads s)) schedule \<longrightarrow>
          (\<exists>N. all_returned tester
                 (run_steps (engine env) tester schedule N (start_run env w rd wr tester))))
    \<and> (pc (threads s ! k) \<noteq> Idle \<longrightarrow>
          (if wr = WriterSharedLock then sm_exclusive s \<and> sm_shared s = 0 else standardMutex s)
          \<and> (\<forall>j<length (threads s). j \<noteq> k \<longrightarrow> pc (threads s ! j) = Idle))
    \<and> (\<forall>v. pc (threads s ! k) = Loaded v \<longrightarrow>
          v = counter (data s)
          \<and> counter (data (step (engine env) tester k s)) = counter (data s) + 1
          \<and> text_str (data (step (engine env) tester k s))
              = fst (generate (engine env) 100000 (generator (threads s ! k)))
          \<and> length (text_str (data (step (engine env) tester k s))) = 100000
          \<and> i (threads (step (engine env) tester k s) ! k) = i (threads s ! k) + 1
          \<and> pc (threads (step (engine env) tester k s) ! k) = Idle)
    \<and> (\<forall>j. data (step (engine env) tester j s) = data s
            \<or> (j < length (threads s) \<and> is_writer (threads s ! j)
                \<and> (\<exists>v. pc (threads s ! j) = Loaded v)))
    \<and> counter (data s) = counter (sharedData tester) + of_nat (total_of updates_done s)"
proof -
  let ?s0 = "start_run env w rd wr tester"
  let ?t = "threads s ! k"
  note inv0 = start_run_inv[OF str, of tester env w]
  note inv = run_steps_inv[OF inv0, of "engine env" schedule n, folded s]
  note ok = thread_ok_nth[OF inv k]
  from str wk have w: "is_writer ?t" and b: "bound tester ?t = numUpdates tester"
    by (auto simp: strategy_def is_writer_def bound_def)
  from ok b have 1: "0 \<le> i ?t \<and> i ?t \<le> max 0 (numUpdates tester)"
    by (simp add: thread_ok_def)
  have 2: "all_returned tester s \<longrightarrow> i ?t = max 0 (numUpdates tester)"
  proof
    assume "all_returned tester s"
    with k have "returned tester ?t" by (simp add: all_returned_def list_all_length)
    then have "\<not> i ?t < numUpdates tester" using b by (simp add: returned_iff)
    with 1 show "i ?t = max 0 (numUpdates tester)" by auto
  qed
  have 3: "fair (length (threads s)) schedule \<longrightarrow>
          (\<exists>N. all_returned tester (run_steps (engine env) tester schedule N ?s0))"
  proof
    assume "fair (length (threads s)) schedule"
    then have "fair (length (threads ?s0)) schedule" by (simp add: s)
    from fair_terminates[OF inv0 this]
    show "\<exists>N. all_returned tester (run_steps (engine env) tester schedule N ?s0)" .
  qed
  have 4: "pc ?t \<noteq> Idle \<longrightarrow>
          (if wr = WriterSharedLock then sm_exclusive s \<and> sm_shared s = 0 else standardMutex s)
          \<and> (\<forall>j<length (threads s). j \<noteq> k \<longrightarrow> pc (threads s ! j) = Idle)"
  proof
    assume cs: "pc ?t \<noteq> Idle"
    from writer_holds_lock[OF inv k w cs] wk
    have "if wr = WriterSharedLock then sm_exclusive s \<and> sm_shared s = 0 else standardMutex s"
      by simp
    moreover have "\<forall>j<length (threads s). j \<noteq> k \<longrightarrow> pc (threads s ! j) = Idle"
      using writer_excludes[OF inv k _ _ w cs] by blast
    ultimately show "(if wr = WriterSharedLock then sm_exclusive s \<and> sm_shared s = 0
                      else standardMutex s)
          \<and> (\<forall>j<length (threads s). j \<noteq> k \<longrightarrow> pc (threads s ! j) = Idle)" by blast
  qed
  have 5: "\<forall>v. pc ?t = Loaded v \<longrightarrow>
          v = counter (data s)
          \<and> counter (data (step (engine env) tester k s)) = counter (data s) + 1
          \<and> text_str (data (step (engine env) tester k s))
              = fst (generate (engine env) 100000 (generator ?t))
          \<and> length (text_str (data (step (engine env) tester k s))) = 100000
          \<and> i (threads (step (engine env) tester k s) ! k) = i ?t + 1
          \<and> pc (threads (step (engine env) tester k s) ! k) = Idle"
  proof (intro allI impI)
    fix v assume pc: "pc ?t = Loaded v"
    with ok have v: "v = counter (data s)" by (simp add: thread_ok_def)
    from writer_write_step[OF k w pc, of "engine env" tester] v
    show "v = counter (data s)
          \<and> counter (data (step (engine env) tester k s)) = counter (data s) + 1
          \<and> text_str (data (step (engine env) tester k s))
              = fst (generate (engine env) 100000 (generator ?t))
          \<and> length (text_str (data (step (engine env) tester k s))) = 100000
          \<and> i (threads (step (engine env) tester k s) ! k) = i ?t + 1
          \<and> pc (threads (step (engine env) tester k s) ! k) = Idle"
      by (simp add: generate_length)
  qed
  have 6: "\<forall>j. data (step (engine env) tester j s) = data s
            \<or> (j < length (threads s) \<and> is_writer (threads s ! j)
                \<and> (\<exists>v. pc (threads s ! j) = Loaded v))"
    using step_data[of "engine env" tester _ s] by blast
  from inv have 7: "counter (data s) = counter (sharedData tester) + of_nat (total_of updates_done s)"
    unfolding run_inv_def by blast
  from 1 2 3 4 5 6 7 show ?thesis by blast
qed


lemma run_steps_4:
  "run_steps eng tester schedule 4 s
   = step eng tester (schedule 3) (step eng tester (schedule 2)
       (step eng tester (schedule 1) (step eng tester (schedule 0) s)))"
  by (simp add: eval_nat_numeral)

theorem writer_iterations_witness:
  "strategy ReaderSharedLock WriterSharedLock
   \<and> entry (threads (run_steps (engine sample_env) (LockTester 0 1 0 5) (sched sample_env 0) 4
         (start_run sample_env world0 ReaderSharedLock WriterSharedLock (LockTester 0 1 0 5))) ! 0)
       = WriterSharedLock
   \<and> pc (threads (run_steps (engine sample_env) (LockTester 0 1 0 5) (sched sample_env 0) 4
         (start_run sample_env world0 ReaderSharedLock WriterSharedLock (LockTester 0 1 0 5))) ! 0)
       = Loaded 0
   \<and> sm_exclusive (run_steps (engine sample_env) (LockTester 0 1 0 5) (sched sample_env 0) 4
         (start_run sample_env world0 ReaderSharedLock WriterSharedLock (LockTester 0 1 0 5)))
   \<and> counter (data (step (engine sample_env) (LockTester 0 1 0 5) 0
         (run_steps (engine sample_env) (LockTester 0 1 0 5) (sched sample_env 0) 4
           (start_run sample_env world0 ReaderSharedLock WriterSharedLock (LockTester 0 1 0 5)))))
       = 1
   \<and> length (text_str (data (step (engine sample_env) (LockTester 0 1 0 5) 0
         (run_steps (engine sample_env) (LockTester 0 1 0 5) (sched sample_env 0) 4
           (start_run sample_env world0 ReaderSharedLock WriterSharedLock (LockTester 0 1 0 5))))))
       = 100000"
proof -
  let ?S = "run_steps (engine sample_env) (LockTester 0 1 0 5) (sched sample_env 0) 4
         (start_run sample_env world0 ReaderSharedLock WriterSharedLock (LockTester 0 1 0 5))"
  have ev: "?S = \<lparr>data = \<lparr>counter = 0, text_str = []\<rparr>, sm_shared = 0, sm_exclusive = True,
                  standardMutex = False,
                  threads = [\<lparr>entry = WriterSharedLock, i = 0, pc = Loaded 0, generator = 0\<rparr>]\<rparr>"
    by (simp add: run_steps_4 step_def thread_step_def writerSharedLock_def start_run_def
        spawn_def sample_env_def LockTester_def world0_def)
  have k: "0 < length (threads ?S)" and wk: "entry (threads ?S ! 0) = WriterSharedLock"
    and pc: "pc (threads ?S ! 0) = Loaded 0" and cs: "pc (threads ?S ! 0) \<noteq> Idle"
    and c: "counter (data ?S) = 0"
    unfolding ev by simp_all
  note W = writer_iterations[OF strategy_shared refl k wk]
  from W cs have held: "sm_exclusive ?S" by simp
  from W pc have "counter (data (step (engine sample_env) (LockTester 0 1 0 5) 0 ?S))
                    = counter (data ?S) + 1
      \<and> length (text_str (data (step (engine sample_env) (LockTester 0 1 0 5) 0 ?S))) = 100000"
    by blast
  with c have "counter (data (step (engine sample_env) (LockTester 0 1 0 5) 0 ?S)) = 1"
    "length (text_str (data (step (engine sample_env) (LockTester 0 1 0 5) 0 ?S))) = 100000"
    by simp_all
  with strategy_shared wk pc held show ?thesis by blast
qed

end
